theory Spec2Isabelle
  imports Main
begin

section \<open>JavaScript strings\<close>

text \<open>
  A JavaScript string is modelled as a \<^typ>\<open>string\<close>: one \<^typ>\<open>char\<close> per code unit, for
  texts whose code units are below 256 (ASCII and the Latin-1 supplement).  The helpers
  below are the members of \<open>String.prototype\<close> that the scripts and servers call.
\<close>

definition lower_char :: "char \<Rightarrow> char" where
  "lower_char c = (let n = (of_char c :: nat) in
     if (65 \<le> n \<and> n \<le> 90) \<or> (192 \<le> n \<and> n \<le> 222 \<and> n \<noteq> 215)
     then char_of (n + 32) else c)"

definition toLowerCase :: "string \<Rightarrow> string" where
  "toLowerCase s = map lower_char s"

fun startsWith :: "string \<Rightarrow> string \<Rightarrow> bool" where
  "startsWith s [] = True"
| "startsWith [] (c # t) = False"
| "startsWith (d # s) (c # t) = (d = c \<and> startsWith s t)"

text \<open>\<open>s.includes(t)\<close>: the string \<open>t\<close> occurs in \<open>s\<close> as a contiguous run.\<close>

fun str_includes :: "string \<Rightarrow> string \<Rightarrow> bool" where
  "str_includes [] t = (t = [])"
| "str_includes (c # s) t = (startsWith (c # s) t \<or> str_includes s t)"

definition is_word_char :: "char \<Rightarrow> bool" where
  "is_word_char c = (let n = (of_char c :: nat) in
     (48 \<le> n \<and> n \<le> 57) \<or> (65 \<le> n \<and> n \<le> 90) \<or> n = 95 \<or> (97 \<le> n \<and> n \<le> 122))"

definition is_space_char :: "char \<Rightarrow> bool" where
  "is_space_char c = ((of_char c :: nat) \<in> {9, 10, 11, 12, 13, 32, 160})"

definition is_line_terminator :: "char \<Rightarrow> bool" where
  "is_line_terminator c = ((of_char c :: nat) \<in> {10, 13})"

text \<open>\<open>s.trim()\<close> removes white space and line terminators at both ends.\<close>

definition trim :: "string \<Rightarrow> string" where
  "trim s = rev (dropWhile is_space_char (rev (dropWhile is_space_char s)))"

text \<open>\<open>s.split("(")[0]\<close>: the part of \<open>s\<close> before its first opening parenthesis.\<close>

definition before_paren :: "string \<Rightarrow> string" where
  "before_paren s = takeWhile (\<lambda>c. c \<noteq> CHR ''('') s"

text \<open>\<open>s.replace(/\./g, '-')\<close>: every dot becomes a hyphen.\<close>

definition dots_to_hyphens :: "string \<Rightarrow> string" where
  "dots_to_hyphens s = map (\<lambda>c. if c = CHR ''.'' then CHR ''-'' else c) s"

section \<open>Sets that remember insertion order\<close>

text \<open>
  \<open>Array.from(new Set(xs))\<close> and iteration over \<open>new Set([...])\<close>: a value is kept at its
  first occurrence, later occurrences are dropped.
\<close>

fun dedup_acc :: "'a list \<Rightarrow> 'a list \<Rightarrow> 'a list" where
  "dedup_acc seen [] = []"
| "dedup_acc seen (x # xs) =
     (if x \<in> set seen then dedup_acc seen xs else x # dedup_acc (x # seen) xs)"

definition dedup :: "'a list \<Rightarrow> 'a list" where
  "dedup xs = dedup_acc [] xs"

text \<open>The position of the first occurrence of a value in a list (its length if there is none).\<close>

fun first_index :: "'a list \<Rightarrow> 'a \<Rightarrow> nat" where
  "first_index [] a = 0"
| "first_index (x # xs) a = (if x = a then 0 else Suc (first_index xs a))"

section \<open>Regular expressions\<close>

text \<open>
  The backtracking matcher of the JavaScript runtime, for the constructs that the patterns
  of the extraction scripts use.  A matcher state is the text already consumed (reversed),
  the text still ahead, and the captures made so far (most recent first).  Running a
  pattern on a state gives every state in which a match of the pattern can end, in the
  order in which backtracking tries them; the first of them is the match that the runtime
  reports.
\<close>

type_synonym mstate = "string \<times> string \<times> (nat \<times> string) list"

datatype cclass =
    Lit char
  | OneOf "char list"
  | NoneOf "char list"
  | Range char char
  | WordChar
  | SpaceChar
  | AnyChar

datatype regex =
    Eps
  | Atom cclass
  | Seq regex regex
  | Alt regex regex
  | Star regex
  | Plus regex
  | LazyPlus regex
  | WordBoundary
  | Group nat regex

fun in_class :: "cclass \<Rightarrow> char \<Rightarrow> bool" where
  "in_class (Lit a) c = (c = a)"
| "in_class (OneOf as) c = (c \<in> set as)"
| "in_class (NoneOf as) c = (c \<notin> set as)"
| "in_class (Range lo hi) c =
     ((of_char lo :: nat) \<le> of_char c \<and> (of_char c :: nat) \<le> of_char hi)"
| "in_class WordChar c = is_word_char c"
| "in_class SpaceChar c = is_space_char c"
| "in_class AnyChar c = (\<not> is_line_terminator c)"

definition ahead :: "mstate \<Rightarrow> nat" where
  "ahead st = length (fst (snd st))"

text \<open>
  \<open>r*\<close> and the tail of \<open>r+\<close>: one more round of \<open>r\<close> first, then stopping.  A round that
  consumes nothing is rejected, as the runtime does.  The lazy variant stops first.
\<close>

function star_greedy :: "(mstate \<Rightarrow> mstate list) \<Rightarrow> mstate \<Rightarrow> mstate list" where
  "star_greedy f st =
     concat (map (star_greedy f) (filter (\<lambda>st'. ahead st' < ahead st) (f st))) @ [st]"
  by pat_completeness auto
termination
  by (relation "measure (\<lambda>(f, st). ahead st)") auto

function star_lazy :: "(mstate \<Rightarrow> mstate list) \<Rightarrow> mstate \<Rightarrow> mstate list" where
  "star_lazy f st =
     st # concat (map (star_lazy f) (filter (\<lambda>st'. ahead st' < ahead st) (f st)))"
  by pat_completeness auto
termination
  by (relation "measure (\<lambda>(f, st). ahead st)") auto

declare star_greedy.simps [simp del] star_lazy.simps [simp del]

primrec run :: "regex \<Rightarrow> mstate \<Rightarrow> mstate list" where
  "run Eps st = [st]"
| "run (Atom cl) st =
     (case st of (bef, rest, caps) \<Rightarrow>
        (case rest of
           [] \<Rightarrow> []
         | c # cs \<Rightarrow> if in_class cl c then [(c # bef, cs, caps)] else []))"
| "run (Seq r1 r2) st = concat (map (run r2) (run r1 st))"
| "run (Alt r1 r2) st = run r1 st @ run r2 st"
| "run (Star r) st = star_greedy (run r) st"
| "run (Plus r) st = concat (map (star_greedy (run r)) (run r st))"
| "run (LazyPlus r) st = concat (map (star_lazy (run r)) (run r st))"
| "run WordBoundary st =
     (case st of (bef, rest, caps) \<Rightarrow>
        (let a = (case bef of [] \<Rightarrow> False | c # _ \<Rightarrow> is_word_char c);
             b = (case rest of [] \<Rightarrow> False | c # _ \<Rightarrow> is_word_char c)
         in if a \<noteq> b then [st] else []))"
| "run (Group n r) st =
     map (\<lambda>(bef', rest', caps').
            (bef', rest', (n, rev (take (length bef' - length (fst st)) bef')) # caps'))
       (run r st)"

definition seqs :: "regex list \<Rightarrow> regex" where
  "seqs rs = foldr Seq rs Eps"

definition lits :: "string \<Rightarrow> regex" where
  "lits s = seqs (map (\<lambda>c. Atom (Lit c)) s)"

text \<open>
  A match attempt at one position: the matched text and the captures of the first way
  the pattern matches there.
\<close>

definition match_at :: "regex \<Rightarrow> string \<Rightarrow> string \<Rightarrow> (string \<times> (nat \<times> string) list) option" where
  "match_at r bef rest =
     (case run r (bef, rest, []) of
        [] \<Rightarrow> None
      | (bef', rest', caps) # _ \<Rightarrow> Some (take (length rest - length rest') rest, caps))"

text \<open>
  \<open>s.match(r)\<close> for a pattern without the \<open>g\<close> flag: the leftmost match, with its
  captures; \<open>None\<close> is \<open>null\<close>.
\<close>

fun search :: "regex \<Rightarrow> string \<Rightarrow> string \<Rightarrow> (string \<times> (nat \<times> string) list) option" where
  "search r bef [] = match_at r bef []"
| "search r bef (c # cs) =
     (case match_at r bef (c # cs) of
        Some m \<Rightarrow> Some m
      | None \<Rightarrow> search r (c # bef) cs)"

definition js_match :: "string \<Rightarrow> regex \<Rightarrow> (string \<times> (nat \<times> string) list) option" where
  "js_match s r = search r [] s"

text \<open>
  \<open>s.match(r)\<close> for a pattern with the \<open>g\<close> flag: the texts of all matches, found from
  left to right, each search starting where the match before ended (one position further
  after an empty match).  \<open>skip\<close> counts the characters of the last match that the scan
  still has to pass before it searches again.  The result \<open>null\<close> (no match) is \<open>None\<close>.
\<close>

fun match_all :: "regex \<Rightarrow> nat \<Rightarrow> string \<Rightarrow> string \<Rightarrow> string list" where
  "match_all r skip bef [] =
     (if skip = 0 then (case match_at r bef [] of Some (m, _) \<Rightarrow> [m] | None \<Rightarrow> []) else [])"
| "match_all r skip bef (c # cs) =
     (if 0 < skip then match_all r (skip - 1) (c # bef) cs
      else (case match_at r bef (c # cs) of
              None \<Rightarrow> match_all r 0 (c # bef) cs
            | Some (m, _) \<Rightarrow> m # match_all r (length m - 1) (c # bef) cs))"

definition js_match_g :: "string \<Rightarrow> regex \<Rightarrow> string list option" where
  "js_match_g s r = (case match_all r 0 [] s of [] \<Rightarrow> None | m # ms \<Rightarrow> Some (m # ms))"

section \<open>Logic Signal Extractor (scripts/extract_logic.ts)\<close>

definition quote_chars :: "char list" where
  "quote_chars = [CHR 0x27, CHR 0x22, CHR 0x60]"

text \<open>\<open>/use[A-Z]\w+/g\<close>\<close>

definition re_composable :: regex where
  "re_composable = seqs [lits ''use'', Atom (Range CHR ''A'' CHR ''Z''), Plus (Atom WordChar)]"

text \<open>\<open>/\b(ref|reactive|computed|watch|onMounted|onUnmounted)\b/g\<close>\<close>

definition re_vue_import :: regex where
  "re_vue_import = seqs [WordBoundary,
     Group 1 (Alt (lits ''ref'') (Alt (lits ''reactive'') (Alt (lits ''computed'')
       (Alt (lits ''watch'') (Alt (lits ''onMounted'') (lits ''onUnmounted'')))))),
     WordBoundary]"

text \<open>\<open>/\b(\w+)\s*\([^)]*\)\s*{[^}]*}/g\<close>\<close>

definition re_method :: regex where
  "re_method = seqs [WordBoundary, Group 1 (Plus (Atom WordChar)), Star (Atom SpaceChar),
     Atom (Lit CHR ''(''), Star (Atom (NoneOf '')'')), Atom (Lit CHR '')''),
     Star (Atom SpaceChar),
     Atom (Lit CHR ''{''), Star (Atom (NoneOf ''}'')), Atom (Lit CHR ''}'')]"

text \<open>\<open>/emit\(['"`](.+?)['"`]\)/g\<close>\<close>

definition re_emit :: regex where
  "re_emit = seqs [lits ''emit('', Atom (OneOf quote_chars), Group 1 (LazyPlus (Atom AnyChar)),
     Atom (OneOf quote_chars), Atom (Lit CHR '')'')]"

text \<open>\<open>/['"`](.+?)['"`]/\<close>\<close>

definition re_quoted :: regex where
  "re_quoted = seqs [Atom (OneOf quote_chars), Group 1 (LazyPlus (Atom AnyChar)),
     Atom (OneOf quote_chars)]"

text \<open>
  The result object of \<open>extractLogicFromFile\<close>: a property that the function does not set
  is \<open>None\<close>.  An entry of \<open>emits\<close> is \<open>None\<close> where the source's \<open>?.[1]\<close> gives
  \<open>undefined\<close>.
\<close>

record logic =
  composables :: "string list option"
  vueImports :: "string list option"
  methods :: "string list option"
  emits :: "string option list option"

definition emit_name :: "string \<Rightarrow> string option" where
  "emit_name e = (case js_match e re_quoted of None \<Rightarrow> None | Some (m, caps) \<Rightarrow> map_of caps 1)"

definition extractLogicFromFile :: "string \<Rightarrow> logic" where
  "extractLogicFromFile content =
    \<lparr> composables = map_option dedup (js_match_g content re_composable),
      vueImports = map_option dedup (js_match_g content re_vue_import),
      methods = map_option
        (\<lambda>methodMatches.
           dedup (filter (\<lambda>m. m \<notin> set [''setup'', ''render''])
                    (map (\<lambda>m. trim (before_paren m)) methodMatches)))
        (js_match_g content re_method),
      emits = map_option (map emit_name) (js_match_g content re_emit) \<rparr>"

section \<open>JavaScript objects and JSON values\<close>

text \<open>
  An object is an association list in the order in which its properties were created;
  the first binding of a key is the property, and a later binding of the same key is
  dead.  \<open>Object.keys\<close> lists the array-index keys first, in ascending numeric order,
  and then the other keys in creation order.
\<close>

type_synonym 'v obj = "(string \<times> 'v) list"

definition decimal :: "string \<Rightarrow> int" where
  "decimal s = foldl (\<lambda>n c. 10 * n + (of_char c - 48)) 0 s"

definition is_digit :: "char \<Rightarrow> bool" where
  "is_digit c = (48 \<le> (of_char c :: nat) \<and> (of_char c :: nat) \<le> 57)"

definition is_array_index :: "string \<Rightarrow> bool" where
  "is_array_index k = (k \<noteq> [] \<and> list_all is_digit k \<and> (k = ''0'' \<or> hd k \<noteq> CHR ''0'')
     \<and> decimal k < 4294967295)"

definition own_keys :: "'v obj \<Rightarrow> string list" where
  "own_keys ob = (let ks = dedup (map fst ob) in
     sort_key decimal (filter is_array_index ks) @ filter (\<lambda>k. \<not> is_array_index k) ks)"

text \<open>Creating or overwriting an own data property.\<close>

fun obj_set :: "string \<Rightarrow> 'v \<Rightarrow> 'v obj \<Rightarrow> 'v obj" where
  "obj_set k v [] = [(k, v)]"
| "obj_set k v ((k', v') # ob) = (if k' = k then (k, v) # ob else (k', v') # obj_set k v ob)"

text \<open>
  The assignment \<open>ob[k] = v\<close>.  On an object whose prototype chain ends in
  \<open>Object.prototype\<close> the key \<open>__proto__\<close> is an accessor: assigning to it changes the
  prototype (or nothing) and creates no own property.
\<close>

definition js_assign :: "string \<Rightarrow> 'v \<Rightarrow> 'v obj \<Rightarrow> 'v obj" where
  "js_assign k v ob = (if k = ''__proto__'' then ob else obj_set k v ob)"

definition own_entries :: "'v obj \<Rightarrow> (string \<times> 'v) list" where
  "own_entries ob = List.map_filter (\<lambda>k. map_option (Pair k) (map_of ob k)) (own_keys ob)"

text \<open>\<open>Object.assign(target, source)\<close>\<close>

definition object_assign :: "'v obj \<Rightarrow> 'v obj \<Rightarrow> 'v obj" where
  "object_assign target source = fold (\<lambda>(k, v). js_assign k v) (own_entries source) target"

text \<open>
  The values that the scripts and servers handle: JSON values (numbers as integers; the
  code only tests them for zero), and \<open>JBuiltin n\<close>, the member \<open>n\<close> of
  \<open>Object.prototype\<close>, which a property read finds when the object has no own property
  of that name.  A JSON document contains no \<open>JBuiltin\<close>.  \<open>undefined\<close> is \<open>None\<close> of
  \<^typ>\<open>'a option\<close>.
\<close>

datatype jsval =
    JNull
  | JBool bool
  | JNum int
  | JStr string
  | JArr "jsval list"
  | JObj "(string \<times> jsval) list"
  | JBuiltin string

definition object_prototype_names :: "string list" where
  "object_prototype_names =
     [''constructor'', ''__defineGetter__'', ''__defineSetter__'', ''hasOwnProperty'',
      ''__lookupGetter__'', ''__lookupSetter__'', ''isPrototypeOf'', ''propertyIsEnumerable'',
      ''toString'', ''valueOf'', ''__proto__'', ''toLocaleString'']"

text \<open>The read \<open>ob[k]\<close> on an object: the own property, else the inherited one.\<close>

definition obj_read :: "jsval obj \<Rightarrow> string \<Rightarrow> jsval option" where
  "obj_read ob k =
     (case map_of ob k of
        Some v \<Rightarrow> Some v
      | None \<Rightarrow> if k \<in> set object_prototype_names then Some (JBuiltin k) else None)"

fun truthy :: "jsval \<Rightarrow> bool" where
  "truthy JNull = False"
| "truthy (JBool b) = b"
| "truthy (JNum n) = (n \<noteq> 0)"
| "truthy (JStr s) = (s \<noteq> [])"
| "truthy (JArr xs) = True"
| "truthy (JObj ob) = True"
| "truthy (JBuiltin n) = True"

fun truthy_opt :: "jsval option \<Rightarrow> bool" where
  "truthy_opt None = False"
| "truthy_opt (Some v) = truthy v"

text \<open>\<open>a || b\<close>\<close>

definition js_or :: "jsval option \<Rightarrow> jsval option \<Rightarrow> jsval option" where
  "js_or a b = (if truthy_opt a then a else b)"

text \<open>\<open>a || {}\<close>\<close>

definition or_empty :: "jsval option \<Rightarrow> jsval" where
  "or_empty a = (case a of Some v \<Rightarrow> if truthy v then v else JObj [] | None \<Rightarrow> JObj [])"

function digits :: "nat \<Rightarrow> string" where
  "digits n = (if n < 10 then [char_of (48 + n)] else digits (n div 10) @ [char_of (48 + n mod 10)])"
  by pat_completeness auto
termination
  by (relation "measure (\<lambda>n. n)") auto

declare digits.simps [simp del]

text \<open>
  The own enumerable properties of a value (\<open>Object.keys\<close>, \<open>Object.entries\<close>, object
  spread), in key order; a string has its characters and an array its elements, under
  their indices.  Not for \<open>null\<close> and \<open>undefined\<close>, which no call below passes.
\<close>

fun own_props :: "jsval \<Rightarrow> (string \<times> jsval) list" where
  "own_props (JObj ob) = own_entries ob"
| "own_props (JArr xs) = zip (map digits [0..<length xs]) xs"
| "own_props (JStr s) = zip (map digits [0..<length s]) (map (\<lambda>c. JStr [c]) s)"
| "own_props v = []"

text \<open>Object spread \<open>{...acc, ...v}\<close>: the own properties of \<open>v\<close> are defined on a copy of \<open>acc\<close>.\<close>

definition spread :: "jsval \<Rightarrow> jsval obj \<Rightarrow> jsval obj" where
  "spread v acc = fold (\<lambda>(k, x). obj_set k x) (own_props v) acc"

text \<open>
  The read \<open>v.name\<close> for the property names \<open>title\<close>, \<open>description\<close>, \<open>props\<close>,
  \<open>examples\<close>, which strings, arrays, numbers, booleans and functions do not have.
\<close>

fun js_prop :: "jsval \<Rightarrow> string \<Rightarrow> jsval option" where
  "js_prop (JObj ob) name = obj_read ob name"
| "js_prop v name = None"

text \<open>\<open>v?.name\<close>\<close>

fun opt_prop :: "jsval option \<Rightarrow> string \<Rightarrow> jsval option" where
  "opt_prop None name = None"
| "opt_prop (Some JNull) name = None"
| "opt_prop (Some v) name = js_prop v name"

text \<open>\<open>v?.length\<close>; on the functions of \<open>Object.prototype\<close>, which no JSON value is, it is left out.\<close>

fun opt_length :: "jsval option \<Rightarrow> jsval option" where
  "opt_length None = None"
| "opt_length (Some JNull) = None"
| "opt_length (Some (JArr xs)) = Some (JNum (int (length xs)))"
| "opt_length (Some (JStr s)) = Some (JNum (int (length s)))"
| "opt_length (Some (JObj ob)) = obj_read ob ''length''"
| "opt_length (Some v) = None"

text \<open>\<open>typeof v === "object" && v !== null\<close>\<close>

fun is_object :: "jsval \<Rightarrow> bool" where
  "is_object (JObj ob) = True"
| "is_object (JArr xs) = True"
| "is_object (JBuiltin n) = (n = ''__proto__'')"
| "is_object v = False"

section \<open>Token Extractor (extract_tokens)\<close>

text \<open>\<open>/dt\(['"`]([^'"`]+)['"`]\)/\<close>, with and without the \<open>g\<close> flag\<close>

definition re_dt :: regex where
  "re_dt = seqs [lits ''dt('', Atom (OneOf quote_chars), Group 1 (Plus (Atom (NoneOf quote_chars))),
     Atom (OneOf quote_chars), Atom (Lit CHR '')'')]"

definition token_key :: "string \<Rightarrow> string" where
  "token_key tokenPath = ''--p-'' @ dots_to_hyphens tokenPath"

definition token_value :: "string \<Rightarrow> string" where
  "token_value tokenPath = ''dt('' @ [CHR 0x27] @ tokenPath @ [CHR 0x27] @ '')''"

text \<open>
  One round of the loop over \<open>dtMatches\<close>.  Group 1 takes part in every match of the
  pattern (lemma \<open>dt_match_has_path\<close> below), so the last case is never taken.
\<close>

definition token_step :: "string \<Rightarrow> string obj \<Rightarrow> string obj" where
  "token_step m tokens =
     (case js_match m re_dt of
        None \<Rightarrow> tokens
      | Some (whole, caps) \<Rightarrow>
          (case map_of caps 1 of
             Some tokenPath \<Rightarrow> js_assign (token_key tokenPath) (token_value tokenPath) tokens
           | None \<Rightarrow> tokens))"

definition extractTokensFromFile :: "string \<Rightarrow> string obj" where
  "extractTokensFromFile content =
     (case js_match_g content re_dt of
        None \<Rightarrow> []
      | Some dtMatches \<Rightarrow> fold token_step dtMatches [])"

text \<open>
  The directory tree under a theme package root: a file has a name and a text (\<open>None\<close>
  when it cannot be read), a directory has a name and its entries in \<open>readdirSync\<close>
  order.
\<close>

datatype fsnode = File string "string option" | Dir string "fsnode list"

fun endsWith :: "string \<Rightarrow> string \<Rightarrow> bool" where
  "endsWith s t = startsWith (rev s) (rev t)"

text \<open>\<open>/\.(mjs|js)$/i.test(file) && !file.includes(".map")\<close>\<close>

definition is_token_file :: "string \<Rightarrow> bool" where
  "is_token_file file =
     ((endsWith (toLowerCase file) ''.mjs'' \<or> endsWith (toLowerCase file) ''.js'')
      \<and> \<not> str_includes file ''.map'')"

fun walk :: "fsnode \<Rightarrow> string option list"
  and walk_dir :: "fsnode list \<Rightarrow> string option list" where
  "walk (Dir name entries) = walk_dir entries"
| "walk (File name text) = (if is_token_file name then [text] else [])"
| "walk_dir [] = []"
| "walk_dir (e # es) = walk e @ walk_dir es"

text \<open>\<open>findTokenFiles\<close>, for a root that is \<open>None\<close> when the directory does not exist.\<close>

definition findTokenFiles :: "fsnode list option \<Rightarrow> string option list" where
  "findTokenFiles baseDir = (case baseDir of None \<Rightarrow> [] | Some entries \<Rightarrow> walk_dir entries)"

definition visit_file :: "string option \<Rightarrow> string obj \<Rightarrow> string obj" where
  "visit_file file tokens =
     (case file of
        None \<Rightarrow> tokens
      | Some content \<Rightarrow>
          if content = [] then tokens else object_assign tokens (extractTokensFromFile content))"

text \<open>The token map that \<open>main\<close> writes, for the two package roots.\<close>

definition main_tokens :: "fsnode list option \<Rightarrow> fsnode list option \<Rightarrow> string obj" where
  "main_tokens styles styled =
     fold visit_file (findTokenFiles styled) (fold visit_file (findTokenFiles styles) [])"

section \<open>Merger (merge_datasets)\<close>

definition merge_record :: "jsval obj \<Rightarrow> jsval obj \<Rightarrow> jsval obj \<Rightarrow> string \<Rightarrow> jsval obj" where
  "merge_record api docs logic key =
     spread (case obj_read logic key of
               Some l \<Rightarrow> if truthy l then JObj [(''logic'', l)] else JObj []
             | None \<Rightarrow> JObj [])
       (spread (or_empty (obj_read api key))
          (spread (or_empty (obj_read docs key)) []))"

definition mergeDatasets ::
  "jsval obj \<Rightarrow> jsval obj \<Rightarrow> jsval obj \<Rightarrow> jsval obj \<Rightarrow> jsval obj" where
  "mergeDatasets api docs logic tokens =
     (let allKeys = dedup (own_keys api @ own_keys docs @ own_keys logic);
          merged = fold (\<lambda>key. js_assign key (JObj (merge_record api docs logic key))) allKeys []
      in if 0 < length (own_keys tokens) then js_assign ''_tokens'' (JObj tokens) merged
         else merged)"

text \<open>
  The files of the script: a path has a text, or \<open>None\<close> when the file is missing or
  unreadable.  \<open>JSON.parse\<close> and \<open>JSON.stringify\<close> are parameters; \<open>parse\<close> gives \<open>None\<close>
  where \<open>JSON.parse\<close> throws, and otherwise the object of the declared return type
  \<open>Record<string, any>\<close>.
\<close>

type_synonym files = "string \<Rightarrow> string option"

definition api_path :: string where "api_path = ''data/api.json''"
definition docs_path :: string where "docs_path = ''data/docs.json''"
definition logic_path :: string where "logic_path = ''data/logic.json''"
definition tokens_path :: string where "tokens_path = ''data/tokens.json''"
definition OUTPUT_PATH :: string where "OUTPUT_PATH = ''data/combined.json''"

definition readJsonSafe :: "(string \<Rightarrow> jsval obj option) \<Rightarrow> files \<Rightarrow> string \<Rightarrow> jsval obj" where
  "readJsonSafe parse fs filePath =
     (case fs filePath of
        None \<Rightarrow> []
      | Some text \<Rightarrow> (case parse text of None \<Rightarrow> [] | Some ob \<Rightarrow> ob))"

definition main_merge ::
  "(string \<Rightarrow> jsval obj option) \<Rightarrow> (jsval obj \<Rightarrow> string) \<Rightarrow> files \<Rightarrow> files" where
  "main_merge parse stringify fs =
     fs (OUTPUT_PATH \<mapsto>
       stringify (mergeDatasets (readJsonSafe parse fs api_path) (readJsonSafe parse fs docs_path)
                    (readJsonSafe parse fs logic_path) (readJsonSafe parse fs tokens_path)))"

section \<open>Query API (the HTTP server)\<close>

text \<open>
  The dataset is the object loaded from \<open>data/combined.json\<close>.  A handler returns its
  response and the new state of the cache.  The two clock readings of one request are
  parameters: \<open>now\<close> is \<open>Date.now()\<close> in \<open>isCacheValid\<close>, \<open>later\<close> is \<open>Date.now()\<close> in
  \<open>setCache\<close>.
\<close>

datatype error = TypeError | ComponentNotFound string "string list" | NameRequired

datatype 'a response = Ok 'a | BadRequest | NotFound string "string list" | ServerError

record summary =
  sum_name :: string
  sum_title :: "jsval option"
  sum_description :: "jsval option"
  hasProps :: bool
  hasExamples :: bool
  sections :: "string list"

record token_result =
  tok_count :: nat
  tok_tokens :: jsval

datatype search_result =
    ComponentHit string "jsval option" "jsval option" "string list"
  | TokenHit string jsval "string list"

record search_response =
  sr_query :: string
  sr_count :: nat
  sr_results :: "search_result list"

record cache =
  c_components :: "string \<Rightarrow> summary list option"
  c_tokens :: "string \<Rightarrow> token_result option"
  c_search :: "string \<Rightarrow> search_response option"
  timestamps :: "string \<Rightarrow> int option"

definition empty_cache :: cache where
  "empty_cache = \<lparr> c_components = (\<lambda>k. None), c_tokens = (\<lambda>k. None), c_search = (\<lambda>k. None),
                    timestamps = (\<lambda>k. None) \<rparr>"

definition ttl :: int where
  "ttl = 5 * 60 * 1000"

definition isCacheValid :: "(string \<Rightarrow> int option) \<Rightarrow> int \<Rightarrow> string \<Rightarrow> bool" where
  "isCacheValid stamps now key =
     (case stamps key of
        None \<Rightarrow> False
      | Some timestamp \<Rightarrow> if timestamp = 0 then False else now - timestamp < ttl)"

definition setCache ::
  "(string \<Rightarrow> 'a option) \<Rightarrow> (string \<Rightarrow> int option) \<Rightarrow> int \<Rightarrow> string \<Rightarrow> 'a
     \<Rightarrow> (string \<Rightarrow> 'a option) \<times> (string \<Rightarrow> int option)" where
  "setCache cacheMap stamps later key v = (cacheMap (key \<mapsto> v), stamps (key \<mapsto> later))"

text \<open>
  \<open>getCachedOrCompute\<close>; \<open>computed\<close> is what \<open>computeFn()\<close> gives.  When \<open>computeFn\<close>
  throws, nothing is stored.
\<close>

definition getCachedOrCompute ::
  "(string \<Rightarrow> 'a option) \<Rightarrow> (string \<Rightarrow> int option) \<Rightarrow> int \<Rightarrow> int \<Rightarrow> string \<Rightarrow> error + 'a
     \<Rightarrow> (error + 'a) \<times> (string \<Rightarrow> 'a option) \<times> (string \<Rightarrow> int option)" where
  "getCachedOrCompute cacheMap stamps now later key computed =
     (case cacheMap key of
        Some hit \<Rightarrow>
          if isCacheValid stamps now key then (Inr hit, cacheMap, stamps)
          else (case computed of
                  Inl e \<Rightarrow> (Inl e, cacheMap, stamps)
                | Inr result \<Rightarrow> (Inr result, setCache cacheMap stamps later key result))
      | None \<Rightarrow>
          (case computed of
             Inl e \<Rightarrow> (Inl e, cacheMap, stamps)
           | Inr result \<Rightarrow> (Inr result, setCache cacheMap stamps later key result)))"

text \<open>\<open>v?.toLowerCase().includes(term)\<close>; a value without \<open>toLowerCase\<close> raises.\<close>

fun text_matches :: "jsval option \<Rightarrow> string \<Rightarrow> error + bool" where
  "text_matches None term = Inr False"
| "text_matches (Some JNull) term = Inr False"
| "text_matches (Some (JStr s)) term = Inr (str_includes (toLowerCase s) term)"
| "text_matches (Some v) term = Inl TypeError"

text \<open>\<open>xs.filter(p)\<close> for a callback that may raise.\<close>

fun filter_e :: "('a \<Rightarrow> error + bool) \<Rightarrow> 'a list \<Rightarrow> error + 'a list" where
  "filter_e p [] = Inr []"
| "filter_e p (x # xs) =
     (case p x of
        Inl e \<Rightarrow> Inl e
      | Inr b \<Rightarrow> (case filter_e p xs of
                    Inl e \<Rightarrow> Inl e
                  | Inr ys \<Rightarrow> Inr (if b then x # ys else ys)))"

text \<open>The filter callback of the component list: key, title or description contains the term.\<close>

definition key_matches :: "jsval obj \<Rightarrow> string \<Rightarrow> string \<Rightarrow> error + bool" where
  "key_matches data term key =
     (let component = obj_read data key in
      if str_includes (toLowerCase key) term then Inr True
      else (case text_matches (opt_prop component ''title'') term of
              Inl e \<Rightarrow> Inl e
            | Inr True \<Rightarrow> Inr True
            | Inr False \<Rightarrow> text_matches (opt_prop component ''description'') term))"

definition standardSections :: "string list" where
  "standardSections = [''title'', ''description'', ''props'', ''examples'']"

definition summarize :: "jsval obj \<Rightarrow> string \<Rightarrow> summary" where
  "summarize data key =
     (let component = obj_read data key in
      \<lparr> sum_name = key,
        sum_title = opt_prop component ''title'',
        sum_description = opt_prop component ''description'',
        hasProps = truthy_opt (opt_prop component ''props''),
        hasExamples = truthy_opt (opt_length (opt_prop component ''examples'')),
        sections = map fst (filter (\<lambda>(k, v). k \<notin> set standardSections \<and> is_object v)
                                   (own_props (or_empty component))) \<rparr>)"

text \<open>\<open>q && typeof q === "string"\<close> for an optional string \<open>q\<close>\<close>

fun given :: "string option \<Rightarrow> bool" where
  "given None = False"
| "given (Some q) = (q \<noteq> [])"

definition compute_components :: "jsval obj \<Rightarrow> string option \<Rightarrow> error + summary list" where
  "compute_components data q =
     (let keys = filter (\<lambda>key. key \<noteq> ''_tokens'') (own_keys data) in
      case (case q of
              Some s \<Rightarrow> if s \<noteq> [] then filter_e (key_matches data (toLowerCase s)) keys else Inr keys
            | None \<Rightarrow> Inr keys) of
        Inl e \<Rightarrow> Inl e
      | Inr keys' \<Rightarrow> Inr (map (summarize data) keys'))"

definition components_key :: "string option \<Rightarrow> string" where
  "components_key q = (case q of Some s \<Rightarrow> if s \<noteq> [] then ''components:'' @ s else ''components:all''
                               | None \<Rightarrow> ''components:all'')"

text \<open>\<open>GET /mcp/components\<close>\<close>

definition get_mcp_components ::
  "jsval obj \<Rightarrow> string option \<Rightarrow> int \<Rightarrow> int \<Rightarrow> cache \<Rightarrow> summary list response \<times> cache" where
  "get_mcp_components data q now later c =
     (case getCachedOrCompute (c_components c) (timestamps c) now later (components_key q)
             (compute_components data q) of
        (Inl e, cm, ts) \<Rightarrow> (ServerError, c\<lparr>c_components := cm, timestamps := ts\<rparr>)
      | (Inr result, cm, ts) \<Rightarrow> (Ok result, c\<lparr>c_components := cm, timestamps := ts\<rparr>))"

text \<open>
  \<open>GET /mcp/component/:name\<close> for a request without the \<open>section\<close> parameter (the
  not-found answer comes before the handler looks at \<open>section\<close>).  The name is looked
  up in lower case first and as it was given second.
\<close>

definition lookup_component :: "jsval obj \<Rightarrow> string \<Rightarrow> jsval option" where
  "lookup_component data name = js_or (obj_read data (toLowerCase name)) (obj_read data name)"

definition not_found_message :: "string \<Rightarrow> string" where
  "not_found_message name = ''Component '' @ [CHR 0x27] @ name @ [CHR 0x27] @ '' not found''"

definition get_mcp_component :: "jsval obj \<Rightarrow> string \<Rightarrow> jsval response" where
  "get_mcp_component data name =
     (if name = [] then BadRequest
      else (case lookup_component data name of
              Some found \<Rightarrow>
                if truthy found then Ok found
                else NotFound (not_found_message name)
                       (filter (\<lambda>key. key \<noteq> ''_tokens'') (own_keys data))
            | None \<Rightarrow>
                NotFound (not_found_message name)
                  (filter (\<lambda>key. key \<noteq> ''_tokens'') (own_keys data))))"

text \<open>\<open>GET /mcp/tokens\<close>\<close>

definition token_matches :: "string \<Rightarrow> string \<times> jsval \<Rightarrow> bool" where
  "token_matches term kv =
     (case kv of (key, v) \<Rightarrow>
        str_includes (toLowerCase key) term
        \<or> (case v of JStr s \<Rightarrow> str_includes (toLowerCase s) term | _ \<Rightarrow> False))"

definition compute_tokens :: "jsval obj \<Rightarrow> string option \<Rightarrow> token_result" where
  "compute_tokens data q =
     (let tokens0 = or_empty (obj_read data ''_tokens'');
          tokens1 = (case q of
                       Some s \<Rightarrow>
                         if s \<noteq> []
                         then JObj (fold (\<lambda>(key, v). js_assign key v)
                                      (filter (token_matches (toLowerCase s)) (own_props tokens0)) [])
                         else tokens0
                     | None \<Rightarrow> tokens0)
      in \<lparr> tok_count = length (own_props tokens1), tok_tokens = tokens1 \<rparr>)"

definition tokens_key :: "string option \<Rightarrow> string" where
  "tokens_key q = (case q of Some s \<Rightarrow> if s \<noteq> [] then ''tokens:'' @ s else ''tokens:all''
                           | None \<Rightarrow> ''tokens:all'')"

definition get_mcp_tokens ::
  "jsval obj \<Rightarrow> string option \<Rightarrow> int \<Rightarrow> int \<Rightarrow> cache \<Rightarrow> token_result response \<times> cache" where
  "get_mcp_tokens data q now later c =
     (case getCachedOrCompute (c_tokens c) (timestamps c) now later (tokens_key q)
             (Inr (compute_tokens data q)) of
        (Inl e, cm, ts) \<Rightarrow> (ServerError, c\<lparr>c_tokens := cm, timestamps := ts\<rparr>)
      | (Inr result, cm, ts) \<Rightarrow> (Ok result, c\<lparr>c_tokens := cm, timestamps := ts\<rparr>))"

text \<open>\<open>GET /mcp/search\<close>\<close>

definition component_hit :: "string \<Rightarrow> string \<times> jsval \<Rightarrow> error + search_result list" where
  "component_hit term kv =
     (case kv of (key, component) \<Rightarrow>
        if key = ''_tokens'' then Inr []
        else (case text_matches (opt_prop (Some component) ''title'') term of
                Inl e \<Rightarrow> Inl e
              | Inr t \<Rightarrow>
                 (case text_matches (opt_prop (Some component) ''description'') term of
                    Inl e \<Rightarrow> Inl e
                  | Inr d \<Rightarrow>
                     (let matches =
                            (if str_includes (toLowerCase key) term then [''name''] else [])
                            @ (if t then [''title''] else [])
                            @ (if d then [''description''] else [])
                            @ (case opt_prop (Some component) ''props'' of
                                 None \<Rightarrow> []
                               | Some props \<Rightarrow>
                                   if truthy props
                                   then map (\<lambda>prop. ''prop:'' @ prop)
                                          (filter (\<lambda>prop. str_includes (toLowerCase prop) term)
                                             (map fst (own_props props)))
                                   else [])
                      in Inr (if matches \<noteq> []
                              then [ComponentHit key (opt_prop (Some component) ''title'')
                                      (opt_prop (Some component) ''description'') matches]
                              else [])))))"

fun collect_e :: "('a \<Rightarrow> error + 'b list) \<Rightarrow> 'a list \<Rightarrow> error + 'b list" where
  "collect_e f [] = Inr []"
| "collect_e f (x # xs) =
     (case f x of
        Inl e \<Rightarrow> Inl e
      | Inr ys \<Rightarrow> (case collect_e f xs of Inl e \<Rightarrow> Inl e | Inr zs \<Rightarrow> Inr (ys @ zs)))"

definition token_hits :: "jsval obj \<Rightarrow> string \<Rightarrow> search_result list" where
  "token_hits data term =
     (case obj_read data ''_tokens'' of
        None \<Rightarrow> []
      | Some tokens0 \<Rightarrow>
          if truthy tokens0
          then map (\<lambda>(key, v). TokenHit key v [''token''])
                 (filter (token_matches term) (own_props tokens0))
          else [])"

definition compute_search :: "jsval obj \<Rightarrow> string \<Rightarrow> error + search_response" where
  "compute_search data q =
     (let term = toLowerCase q in
      case collect_e (component_hit term) (own_entries data) of
        Inl e \<Rightarrow> Inl e
      | Inr hits \<Rightarrow>
          (let results = hits @ token_hits data term
           in Inr \<lparr> sr_query = q, sr_count = length results, sr_results = results \<rparr>))"

definition get_mcp_search ::
  "jsval obj \<Rightarrow> string option \<Rightarrow> int \<Rightarrow> int \<Rightarrow> cache \<Rightarrow> search_response response \<times> cache" where
  "get_mcp_search data q now later c =
     (case q of
        None \<Rightarrow> (BadRequest, c)
      | Some s \<Rightarrow>
          if s = [] then (BadRequest, c)
          else (case getCachedOrCompute (c_search c) (timestamps c) now later (''search:'' @ s)
                       (compute_search data s) of
                  (Inl e, cm, ts) \<Rightarrow> (ServerError, c\<lparr>c_search := cm, timestamps := ts\<rparr>)
                | (Inr result, cm, ts) \<Rightarrow> (Ok result, c\<lparr>c_search := cm, timestamps := ts\<rparr>)))"

text \<open>\<open>POST /cache/clear\<close>\<close>

definition post_cache_clear :: "cache \<Rightarrow> cache" where
  "post_cache_clear c = empty_cache"

text \<open>The cache states that a server with the dataset \<open>data\<close> can be in.\<close>

inductive reachable :: "jsval obj \<Rightarrow> cache \<Rightarrow> bool" for data :: "jsval obj" where
  start: "reachable data empty_cache"
| components: "reachable data c \<Longrightarrow> reachable data (snd (get_mcp_components data q now later c))"
| tokens: "reachable data c \<Longrightarrow> reachable data (snd (get_mcp_tokens data q now later c))"
| search: "reachable data c \<Longrightarrow> reachable data (snd (get_mcp_search data q now later c))"
| clear: "reachable data c \<Longrightarrow> reachable data (post_cache_clear c)"

section \<open>Tool Server (src/mcp-server.ts)\<close>

record component =
  comp_name :: string
  comp_title :: "jsval option"
  comp_description :: "jsval option"
  comp_hasProps :: bool
  comp_hasExamples :: bool

definition searchComponents :: "jsval obj \<Rightarrow> string \<Rightarrow> error + component list" where
  "searchComponents data query =
     (let components = filter (\<lambda>k. k \<noteq> ''_tokens'') (own_keys data);
          lowerQuery = toLowerCase query
      in case filter_e (key_matches data lowerQuery) components of
           Inl e \<Rightarrow> Inl e
         | Inr keys \<Rightarrow>
             Inr (map (\<lambda>key.
                    \<lparr> comp_name = key,
                      comp_title = opt_prop (obj_read data key) ''title'',
                      comp_description = opt_prop (obj_read data key) ''description'',
                      comp_hasProps = truthy_opt (opt_prop (obj_read data key) ''props''),
                      comp_hasExamples =
                        truthy_opt (opt_length (opt_prop (obj_read data key) ''examples'')) \<rparr>)
                  keys))"

definition getComponent :: "jsval obj \<Rightarrow> string \<Rightarrow> error + jsval" where
  "getComponent data name =
     (case lookup_component data name of
        Some found \<Rightarrow>
          if truthy found then Inr found
          else Inl (ComponentNotFound name (take 10 (filter (\<lambda>k. k \<noteq> ''_tokens'') (own_keys data))))
      | None \<Rightarrow>
          Inl (ComponentNotFound name (take 10 (filter (\<lambda>k. k \<noteq> ''_tokens'') (own_keys data)))))"

text \<open>The tool call \<open>get_component\<close>: \<open>compName\<close> is \<open>args?.name\<close>.\<close>

definition call_get_component :: "jsval obj \<Rightarrow> string option \<Rightarrow> error + jsval" where
  "call_get_component data compName =
     (case compName of
        None \<Rightarrow> Inl NameRequired
      | Some name \<Rightarrow> if name = [] then Inl NameRequired else getComponent data name)"

record listing_stats =
  stat_components :: nat
  stat_tokens :: nat
  stat_total :: nat

record listing =
  list_stats :: listing_stats
  list_components :: "(string \<times> jsval option \<times> jsval option) list"

definition listComponents :: "jsval obj \<Rightarrow> listing" where
  "listComponents data =
     (let components = filter (\<lambda>k. k \<noteq> ''_tokens'') (own_keys data);
          tokenCount = (case obj_read data ''_tokens'' of
                          None \<Rightarrow> 0
                        | Some tokens0 \<Rightarrow> if truthy tokens0 then length (own_props tokens0) else 0)
      in \<lparr> list_stats = \<lparr> stat_components = length components, stat_tokens = tokenCount,
                           stat_total = length components + tokenCount \<rparr>,
           list_components =
             map (\<lambda>name. (name, opt_prop (obj_read data name) ''title'',
                           opt_prop (obj_read data name) ''description''))
               components \<rparr>)"

section \<open>Notions used in the statements\<close>

text \<open>Sample source documents of the Merger, for its theorems at a concrete input.\<close>

definition sample_api :: "jsval obj" where
  "sample_api =
     [(''button'', JObj [(''props'', JObj [(''label'', JStr ''string'')]),
                         (''title'', JStr ''from api'')])]"

definition sample_docs :: "jsval obj" where
  "sample_docs =
     [(''button'', JObj [(''title'', JStr ''Button''),
                         (''description'', JStr ''Click to toggle'')])]"

definition sample_logic :: "jsval obj" where
  "sample_logic = [(''button'', JObj [(''methods'', JArr [JStr ''onClick''])])]"

definition sample_tokens :: "jsval obj" where
  "sample_tokens = [(''--p-button-border-radius'', JStr ''dt'')]"

text \<open>
  Stand-ins for \<open>JSON.parse\<close> and \<open>JSON.stringify\<close>, and a file system with two of the
  four input files, to run the Merger at a concrete input.
\<close>

definition toy_parse :: "string \<Rightarrow> jsval obj option" where
  "toy_parse text = (if text = [] then None else Some [(text, JObj [])])"

definition toy_stringify :: "jsval obj \<Rightarrow> string" where
  "toy_stringify ob = concat (map fst ob)"

definition toy_files :: files where
  "toy_files = (\<lambda>p. None)(api_path \<mapsto> ''button'', docs_path \<mapsto> ''card'')"

text \<open>Sample datasets of the servers.\<close>

definition sample_data :: "jsval obj" where
  "sample_data =
     [(''button'', JObj [(''title'', JStr ''Button''), (''description'', JStr ''Click to toggle''),
                         (''props'', JObj [(''label'', JStr ''string'')]),
                         (''examples'', JArr [JStr ''<Button />''])]),
      (''card'', JObj [(''props'', JNull), (''examples'', JArr [])]),
      (''_tokens'', JObj [(''--p-button-radius'', JStr ''dt('button.radius')'')])]"

definition two_cases :: "jsval obj" where
  "two_cases = [(''Button'', JObj [(''title'', JStr ''exact'')]),
                (''button'', JObj [(''title'', JStr ''lower'')])]"

text \<open>A text that starts with \<open>emit(\<close> and a quote character: only there can the pattern match.\<close>

definition starts_emit_call :: "string \<Rightarrow> bool" where
  "starts_emit_call t =
     (startsWith t ''emit(''
      \<and> (case drop (length ''emit('') t of [] \<Rightarrow> False | q # r \<Rightarrow> q \<in> set quote_chars))"

text \<open>
  A stretch of text made of calls \<open>emit(<quote>name<quote>)\<close>: each call comes with the text
  before it (its gap) and its two quote characters, and \<open>final\<close> is the text after the
  last call.  \<open>simple_calls\<close> says that the quotes are quote characters, that each name is
  not empty and has no quote character and no line terminator, and that no place inside
  a gap starts with \<open>emit(\<close> and a quote character; \<open>final\<close> is free.
\<close>

type_synonym call_seg = "string \<times> char \<times> string \<times> char"

definition call_text :: "char \<Rightarrow> string \<Rightarrow> char \<Rightarrow> string" where
  "call_text q c q' = ''emit('' @ q # c @ q' # '')''"

fun emit_text :: "call_seg list \<Rightarrow> string \<Rightarrow> string" where
  "emit_text [] final = final"
| "emit_text ((gap, q, c, q') # segs) final = gap @ call_text q c q' @ emit_text segs final"

fun simple_calls :: "call_seg list \<Rightarrow> string \<Rightarrow> bool" where
  "simple_calls [] final = True"
| "simple_calls ((gap, q, c, q') # segs) final =
     (q \<in> set quote_chars \<and> q' \<in> set quote_chars \<and> c \<noteq> []
      \<and> list_all (\<lambda>x. x \<notin> set quote_chars \<and> \<not> is_line_terminator x) c
      \<and> list_all (\<lambda>i. \<not> starts_emit_call (drop i (gap @ call_text q c q' @ emit_text segs final)))
            [0..<length gap]
      \<and> simple_calls segs final)"

text \<open>The names of the calls, as the entries of \<open>emits\<close>.\<close>

definition call_names :: "call_seg list \<Rightarrow> string option list" where
  "call_names segs = map (\<lambda>(gap, q, c, q'). Some c) segs"

text \<open>A text after which a line starts: the empty text, or one that ends in a line terminator.\<close>

definition line_start :: "string \<Rightarrow> bool" where
  "line_start before = (case rev before of [] \<Rightarrow> True | x # xs \<Rightarrow> is_line_terminator x)"

text \<open>
  The types that \<open>ComponentSchema\<close> and the interface \<open>ComponentData\<close> declare for the
  two fields that the summary flags read: \<open>props\<close>, when present, is an object, and
  \<open>examples\<close>, when present, is an array.
\<close>

definition props_examples_typed :: "jsval obj \<Rightarrow> bool" where
  "props_examples_typed ob =
     ((case map_of ob ''props'' of None \<Rightarrow> True | Some (JObj ps) \<Rightarrow> True | Some v \<Rightarrow> False)
      \<and> (case map_of ob ''examples'' of None \<Rightarrow> True | Some (JArr xs) \<Rightarrow> True | Some v \<Rightarrow> False))"

text \<open>A dataset whose component records have these types.\<close>

definition typed_data :: "jsval obj" where
  "typed_data =
     [(''button'', JObj [(''title'', JStr ''Button''),
                         (''props'', JObj []),
                         (''examples'', JArr [JStr ''<Button />''])]),
      (''card'', JObj [(''title'', JStr ''Card''), (''examples'', JArr [])]),
      (''_tokens'', JObj [(''--p-button-radius'', JStr ''dt('button.radius')'')])]"

text \<open>
  The writes that the matches of a text cause, in match order: the key and the value
  for the path that each match captured.  \<open>last_write ws k\<close> replays the writes \<open>ws\<close>
  and gives the value of the last one to the key \<open>k\<close>.
\<close>

definition dt_matches :: "string \<Rightarrow> string list" where
  "dt_matches content = (case js_match_g content re_dt of None \<Rightarrow> [] | Some ms \<Rightarrow> ms)"

definition match_path :: "string \<Rightarrow> string option" where
  "match_path m = (case js_match m re_dt of None \<Rightarrow> None | Some (whole, caps) \<Rightarrow> map_of caps 1)"

definition token_writes :: "string \<Rightarrow> (string \<times> string) list" where
  "token_writes content =
     map (\<lambda>tokenPath. (token_key tokenPath, token_value tokenPath))
       (List.map_filter match_path (dt_matches content))"

fun file_writes :: "string option \<Rightarrow> (string \<times> string) list" where
  "file_writes None = []"
| "file_writes (Some content) = token_writes content"

definition last_write :: "(string \<times> 'v) list \<Rightarrow> string \<Rightarrow> 'v option" where
  "last_write ws k = fold (\<lambda>(k', v) r. if k' = k then Some v else r) ws None"

text \<open>A text that starts with \<open>dt(\<close> and a quote character: only there can the pattern match.\<close>

definition starts_dt_call :: "string \<Rightarrow> bool" where
  "starts_dt_call t =
     (startsWith t ''dt(''
      \<and> (case drop (length ''dt('') t of [] \<Rightarrow> False | q # r \<Rightarrow> q \<in> set quote_chars))"

text \<open>
  Every list in the component cache was computed from the dataset: its summaries are
  those of component keys other than \<open>_tokens\<close>.  The search cache holds under the key of
  a query the result for that query, and so do the component and token caches under
  every key but \<open>components:all\<close> and \<open>tokens:all\<close>.
\<close>

definition good_components :: "jsval obj \<Rightarrow> summary list \<Rightarrow> bool" where
  "good_components data r =
     (\<forall>s \<in> set r. sum_name s \<in> set (own_keys data) \<and> sum_name s \<noteq> ''_tokens''
                   \<and> s = summarize data (sum_name s))"

fun is_reserved_hit :: "search_result \<Rightarrow> bool" where
  "is_reserved_hit (ComponentHit n t d m) = (n = ''_tokens'')"
| "is_reserved_hit (TokenHit n v m) = False"

definition cache_inv :: "jsval obj \<Rightarrow> cache \<Rightarrow> bool" where
  "cache_inv data c =
     ((\<forall>k r. c_components c k = Some r \<longrightarrow> good_components data r)
      \<and> (\<forall>s r. c_search c (''search:'' @ s) = Some r \<longrightarrow> compute_search data s = Inr r)
      \<and> (\<forall>s r. s \<noteq> [] \<and> s \<noteq> ''all'' \<and> c_components c (''components:'' @ s) = Some r
             \<longrightarrow> compute_components data (Some s) = Inr r)
      \<and> (\<forall>s r. s \<noteq> [] \<and> s \<noteq> ''all'' \<and> c_tokens c (''tokens:'' @ s) = Some r
             \<longrightarrow> compute_tokens data (Some s) = r))"

section \<open>Properties of the order-keeping sets and of objects\<close>

lemma set_dedup_acc: "set (dedup_acc seen xs) = set xs - set seen"
  by (induction xs arbitrary: seen) auto

lemma distinct_dedup_acc: "distinct (dedup_acc seen xs)"
  by (induction xs arbitrary: seen) (auto simp: set_dedup_acc)

lemma set_dedup: "set (dedup xs) = set xs"
  by (simp add: dedup_def set_dedup_acc)

lemma distinct_dedup: "distinct (dedup xs)"
  by (simp add: dedup_def distinct_dedup_acc)

lemma first_index_order_dedup_acc:
  "sorted_wrt (\<lambda>a b. first_index xs a < first_index xs b) (dedup_acc seen xs)"
proof (induction xs arbitrary: seen)
  case Nil
  then show ?case by simp
next
  case (Cons x xs)
  have later: "sorted_wrt (\<lambda>a b. first_index (x # xs) a < first_index (x # xs) b) (dedup_acc s xs)"
    if "x \<in> set s" for s
  proof (rule sorted_wrt_mono_rel [OF _ Cons.IH [of s]])
    fix a b
    assume "a \<in> set (dedup_acc s xs)" "b \<in> set (dedup_acc s xs)"
      and "first_index xs a < first_index xs b"
    with that show "first_index (x # xs) a < first_index (x # xs) b"
      by (auto simp: set_dedup_acc)
  qed
  show ?case
  proof (cases "x \<in> set seen")
    case True
    then show ?thesis using later [of seen] by simp
  next
    case False
    then show ?thesis using later [of "x # seen"] by (auto simp: set_dedup_acc)
  qed
qed

lemma dedup_first_seen_order:
  "sorted_wrt (\<lambda>a b. first_index xs a < first_index xs b) (dedup xs)"
  by (simp add: dedup_def first_index_order_dedup_acc)

lemma map_of_obj_set: "map_of (obj_set k v ob) = (map_of ob)(k \<mapsto> v)"
  by (induction ob) (auto simp: fun_eq_iff)

lemma keys_obj_set: "fst ` set (obj_set k v ob) = insert k (fst ` set ob)"
  by (simp add: dom_map_of_conv_image_fst [symmetric] map_of_obj_set)

lemma set_own_keys: "set (own_keys ob) = fst ` set ob"
  by (auto simp: own_keys_def Let_def set_dedup)

lemma distinct_own_keys: "distinct (own_keys ob)"
  by (auto simp: own_keys_def Let_def distinct_dedup set_dedup)

lemma own_entries_map: "own_entries ob = map (\<lambda>k. (k, the (map_of ob k))) (own_keys ob)"
proof -
  have "List.map_filter (\<lambda>k. map_option (Pair k) (map_of ob k)) ks
      = map (\<lambda>k. (k, the (map_of ob k))) ks" if "set ks \<subseteq> fst ` set ob" for ks
    using that
  proof (induction ks)
    case Nil
    then show ?case by (simp add: List.map_filter_simps)
  next
    case (Cons k ks)
    then have "k \<in> fst ` set ob" by simp
    then obtain v where "map_of ob k = Some v"
      by (metis domD dom_map_of_conv_image_fst)
    with Cons show ?case by (simp add: List.map_filter_simps)
  qed
  then show ?thesis by (simp add: own_entries_def set_own_keys)
qed

lemma keys_own_entries: "map fst (own_entries ob) = own_keys ob"
  by (simp add: own_entries_map comp_def)

lemma map_of_own_entries: "map_of (own_entries ob) = map_of ob"
proof
  fix k
  show "map_of (own_entries ob) k = map_of ob k"
  proof (cases "k \<in> fst ` set ob")
    case True
    then obtain v where v: "map_of ob k = Some v"
      by (metis domD dom_map_of_conv_image_fst)
    have "(k, v) \<in> set (own_entries ob)"
      using True v by (force simp: own_entries_map set_own_keys)
    moreover have "distinct (map fst (own_entries ob))"
      by (simp add: keys_own_entries distinct_own_keys)
    ultimately show ?thesis using v by simp
  next
    case False
    then have "map_of ob k = None" by (simp add: map_of_eq_None_iff)
    moreover have "fst ` set (own_entries ob) = fst ` set ob"
      using set_map [of fst "own_entries ob"] by (simp add: keys_own_entries set_own_keys)
    then have "map_of (own_entries ob) k = None"
      using False by (simp add: map_of_eq_None_iff)
    ultimately show ?thesis by simp
  qed
qed

lemma map_of_fold_obj_set:
  "map_of (fold (\<lambda>(k, v). obj_set k v) es acc) k =
     (case map_of (rev es) k of Some v \<Rightarrow> Some v | None \<Rightarrow> map_of acc k)"
proof (induction es arbitrary: acc)
  case Nil
  then show ?case by simp
next
  case (Cons e es)
  obtain k' v' where e: "e = (k', v')" by (cases e)
  show ?case
    by (simp add: e Cons.IH map_of_obj_set map_of_append map_add_def split: option.splits)
qed

lemma map_of_rev_distinct: "distinct (map fst es) \<Longrightarrow> map_of (rev es) = map_of es"
  by (rule map_of_inject_set [THEN iffD2]) (simp_all add: rev_map [symmetric])

lemma decimal_snoc: "decimal (s @ [c]) = 10 * decimal s + (of_char c - 48)"
  by (simp add: decimal_def)

lemma int_of_char_of: "(of_char (char_of (m::nat)) :: int) = int (m mod 256)"
  by (metis of_char_of of_nat_of_char)

lemma decimal_digits: "decimal (digits n) = int n"
proof (induction n rule: digits.induct)
  case (1 n)
  show ?case
  proof (cases "n < 10")
    case True
    then show ?thesis by (subst digits.simps) (simp add: decimal_def int_of_char_of)
  next
    case False
    then have "decimal (digits n) = 10 * decimal (digits (n div 10)) + (of_char (char_of (48 + n mod 10)) - 48)"
      by (subst digits.simps) (simp add: decimal_snoc)
    also have "\<dots> = 10 * int (n div 10) + int (n mod 10)"
      using False "1.IH" by (simp add: int_of_char_of)
    also have "\<dots> = int n" by presburger
    finally show ?thesis .
  qed
qed

lemma inj_digits: "inj digits"
  by (rule inj_on_inverseI [where g = "\<lambda>s. nat (decimal s)"]) (simp add: decimal_digits)

lemma distinct_own_props: "distinct (map fst (own_props v))"
proof (cases v)
  case (JObj ob)
  then show ?thesis by (simp add: keys_own_entries distinct_own_keys)
next
  case (JArr xs)
  then show ?thesis by (simp add: distinct_map inj_digits [THEN inj_on_subset])
next
  case (JStr s)
  then show ?thesis by (simp add: distinct_map inj_digits [THEN inj_on_subset])
qed simp_all

lemma map_of_spread:
  "map_of (spread v acc) k =
     (case map_of (own_props v) k of Some x \<Rightarrow> Some x | None \<Rightarrow> map_of acc k)"
  by (simp add: spread_def map_of_fold_obj_set map_of_rev_distinct distinct_own_props)

lemma map_of_fold_assign:
  "map_of (fold (\<lambda>key. js_assign key (F key)) keys acc) k =
     (if k \<in> set keys \<and> k \<noteq> ''__proto__'' then Some (F k) else map_of acc k)"
  by (induction keys arbitrary: acc) (auto simp: js_assign_def map_of_obj_set)

section \<open>The Merger: what it writes under each key\<close>

lemma merged_lookup:
  assumes "k \<in> set (own_keys api) \<union> set (own_keys docs) \<union> set (own_keys logic)"
    and "k \<noteq> ''__proto__''"
    and "k \<noteq> ''_tokens'' \<or> own_keys tokens = []"
  shows "map_of (mergeDatasets api docs logic tokens) k = Some (JObj (merge_record api docs logic k))"
  using assms
  by (auto simp: mergeDatasets_def Let_def map_of_fold_assign set_dedup js_assign_def map_of_obj_set)

lemma merge_record_field:
  "map_of (merge_record api docs logic k) f =
     (if f = ''logic'' \<and> truthy_opt (obj_read logic k) then obj_read logic k
      else (case map_of (own_props (or_empty (obj_read api k))) f of
              Some v \<Rightarrow> Some v
            | None \<Rightarrow> map_of (own_props (or_empty (obj_read docs k))) f))"
  by (auto simp: merge_record_def map_of_spread own_entries_def own_keys_def dedup_def
      List.map_filter_simps is_array_index_def split: option.splits)

text \<open>
  Claim C1, as amended.  For every key \<open>k\<close> of the api, docs or logic document, other
  than \<open>__proto__\<close>, and other than \<open>_tokens\<close> when the tokens document has a key, the
  merged document has at \<open>k\<close> the record \<open>merge_record api docs logic k\<close>, whose fields
  are these: the field \<open>logic\<close> is \<open>logic[k]\<close> when that value is truthy; every other field
  (and \<open>logic\<close> too when \<open>logic[k]\<close> is missing or falsy) is the field of \<open>api[k]\<close> if
  \<open>api[k]\<close> has it, and otherwise the field of \<open>docs[k]\<close>.  A record that is missing or
  falsy contributes no field.
\<close>

theorem merged_record_at_key:
  assumes "k \<in> set (own_keys api) \<union> set (own_keys docs) \<union> set (own_keys logic)"
    and "k \<noteq> ''__proto__''"
    and "k \<noteq> ''_tokens'' \<or> own_keys tokens = []"
  shows "map_of (mergeDatasets api docs logic tokens) k = Some (JObj (merge_record api docs logic k))
    \<and> (\<forall>f. map_of (merge_record api docs logic k) f =
          (if f = ''logic'' \<and> truthy_opt (obj_read logic k) then obj_read logic k
           else (case map_of (own_props (or_empty (obj_read api k))) f of
                   Some v \<Rightarrow> Some v
                 | None \<Rightarrow> map_of (own_props (or_empty (obj_read docs k))) f)))"
  using merged_lookup [OF assms] merge_record_field by blast

text \<open>
  The theorem at a sample: \<open>title\<close> is defined by both records and the api value wins,
  \<open>description\<close> comes from the docs record, and the logic record sits under \<open>logic\<close>.
\<close>

theorem merged_record_at_key_witness:
  "''button'' \<in> set (own_keys sample_api) \<union> set (own_keys sample_docs) \<union> set (own_keys sample_logic)
   \<and> ''button'' \<noteq> ''__proto__'' \<and> ''button'' \<noteq> ''_tokens''
   \<and> map_of (mergeDatasets sample_api sample_docs sample_logic sample_tokens) ''button'' =
       Some (JObj (merge_record sample_api sample_docs sample_logic ''button''))
   \<and> map_of (merge_record sample_api sample_docs sample_logic ''button'') ''title'' =
       Some (JStr ''from api'')
   \<and> map_of (merge_record sample_api sample_docs sample_logic ''button'') ''description'' =
       Some (JStr ''Click to toggle'')
   \<and> map_of (merge_record sample_api sample_docs sample_logic ''button'') ''logic'' =
       Some (JObj [(''methods'', JArr [JStr ''onClick''])])"
proof -
  have h1: "''button'' \<in> set (own_keys sample_api) \<union> set (own_keys sample_docs) \<union> set (own_keys sample_logic)"
    by (simp add: set_own_keys sample_api_def)
  have h2: "''button'' \<noteq> ''__proto__''" by simp
  have h3: "''button'' \<noteq> ''_tokens'' \<or> own_keys sample_tokens = []" by simp
  note t = merged_record_at_key [OF h1 h2 h3]
  have r: "merge_record sample_api sample_docs sample_logic ''button'' =
     [(''title'', JStr ''from api''), (''description'', JStr ''Click to toggle''),
      (''props'', JObj [(''label'', JStr ''string'')]),
      (''logic'', JObj [(''methods'', JArr [JStr ''onClick''])])]"
    by code_simp
  show ?thesis using h1 t by (simp add: r)
qed

text \<open>
  Claim C1 as stated fails at the reserved key: when the api document has a key
  \<open>_tokens\<close> and the tokens document is not empty, the merged document holds the token
  map under \<open>_tokens\<close>, not the record merged from the api and docs records.
\<close>

theorem merged_tokens_key_counterexample:
  "''_tokens'' \<in> set (own_keys [(''_tokens'', JObj [(''props'', JObj [])])])
   \<and> map_of (mergeDatasets [(''_tokens'', JObj [(''props'', JObj [])])] [] [] sample_tokens) ''_tokens''
       = Some (JObj sample_tokens)
   \<and> merge_record [(''_tokens'', JObj [(''props'', JObj [])])] [] [] ''_tokens'' = [(''props'', JObj [])]
   \<and> JObj sample_tokens \<noteq> JObj [(''props'', JObj [])]"
  by code_simp

text \<open>A logic record that is present but falsy is not attached.\<close>

lemma merged_null_logic:
  "mergeDatasets [] [] [(''card'', JNull)] [] = [(''card'', JObj [])]"
  by code_simp

section \<open>The Merger: the run as a whole\<close>

text \<open>
  Claim C9.  The text that the Merger writes is a function of the texts of its four
  input files alone, whatever \<open>JSON.parse\<close> and \<open>JSON.stringify\<close> compute: two file
  systems that agree on the four inputs get the same output text, and the Merger run
  on its own result writes the same file system again.  The merged object keeps the
  order of its keys, so the output text has them in the same order in every run.
\<close>

theorem merge_deterministic:
  "main_merge parse stringify (main_merge parse stringify fs) = main_merge parse stringify fs
   \<and> (\<forall>fs'. fs' api_path = fs api_path \<and> fs' docs_path = fs docs_path
          \<and> fs' logic_path = fs logic_path \<and> fs' tokens_path = fs tokens_path
        \<longrightarrow> main_merge parse stringify fs' OUTPUT_PATH = main_merge parse stringify fs OUTPUT_PATH)"
  by (simp add: main_merge_def readJsonSafe_def api_path_def docs_path_def logic_path_def
      tokens_path_def OUTPUT_PATH_def)

theorem merge_deterministic_witness:
  "main_merge toy_parse toy_stringify (toy_files (OUTPUT_PATH \<mapsto> ''stale'')) OUTPUT_PATH
     = main_merge toy_parse toy_stringify toy_files OUTPUT_PATH
   \<and> main_merge toy_parse toy_stringify toy_files OUTPUT_PATH = Some ''buttoncard''
   \<and> main_merge toy_parse toy_stringify (main_merge toy_parse toy_stringify toy_files)
     = main_merge toy_parse toy_stringify toy_files"
proof -
  note t = merge_deterministic [of toy_parse toy_stringify toy_files]
  have same: "(toy_files (OUTPUT_PATH \<mapsto> ''stale'')) api_path = toy_files api_path
      \<and> (toy_files (OUTPUT_PATH \<mapsto> ''stale'')) docs_path = toy_files docs_path
      \<and> (toy_files (OUTPUT_PATH \<mapsto> ''stale'')) logic_path = toy_files logic_path
      \<and> (toy_files (OUTPUT_PATH \<mapsto> ''stale'')) tokens_path = toy_files tokens_path"
    by (simp add: api_path_def docs_path_def logic_path_def tokens_path_def OUTPUT_PATH_def)
  have out: "main_merge toy_parse toy_stringify toy_files OUTPUT_PATH = Some ''buttoncard''"
    by code_simp
  show ?thesis using t same out by blast
qed

section \<open>Properties of the matcher\<close>

text \<open>
  The equations of \<open>run\<close> for a pattern applied to a state, and what the lazy and the
  greedy repetition of one character class give when a closing quote has to follow.
\<close>

lemma run_Eps: "run Eps st = [st]"
  by simp

lemma run_Atom:
  "run (Atom cl) (bef, inp, caps) =
     (case inp of [] \<Rightarrow> [] | x # xs \<Rightarrow> if in_class cl x then [(x # bef, xs, caps)] else [])"
  by simp

lemma run_Seq: "run (Seq r1 r2) st = concat (map (run r2) (run r1 st))"
  by simp

lemma run_Plus: "run (Plus r) st = concat (map (star_greedy (run r)) (run r st))"
  by simp

lemma run_LazyPlus: "run (LazyPlus r) st = concat (map (star_lazy (run r)) (run r st))"
  by simp

lemma run_Group:
  "run (Group n r) (bef, inp, caps) =
     map (\<lambda>(bef', rest', caps').
            (bef', rest', (n, rev (take (length bef' - length bef) bef')) # caps'))
       (run r (bef, inp, caps))"
  by simp

declare run.simps [simp del]

lemmas run_simps = run_Eps run_Atom run_Seq run_Plus run_LazyPlus run_Group

lemma seqs_simps: "seqs [] = Eps" "seqs (r # rs) = Seq r (seqs rs)"
  by (simp_all add: seqs_def)

lemma lits_simps: "lits [] = Eps" "lits (c # s) = Seq (Atom (Lit c)) (lits s)"
  by (simp_all add: lits_def seqs_def)

lemma run_lits:
  "run (lits s) (bef, inp, caps) =
     (if startsWith inp s then [(rev s @ bef, drop (length s) inp, caps)] else [])"
proof (induction s arbitrary: bef inp)
  case Nil
  then show ?case by (simp add: lits_simps run_simps)
next
  case (Cons c s)
  show ?case
  proof (cases inp)
    case Nil
    then show ?thesis by (simp add: lits_simps run_simps)
  next
    case (Cons x xs)
    then show ?thesis by (simp add: lits_simps run_simps Cons.IH)
  qed
qed

lemma star_lazy_any_Cons:
  "star_lazy (run (Atom AnyChar)) (bef, x # xs, caps) =
     (bef, x # xs, caps) #
       (if is_line_terminator x then [] else star_lazy (run (Atom AnyChar)) (x # bef, xs, caps))"
  by (subst star_lazy.simps) (simp add: ahead_def run_simps)

lemma lazy_skip:
  assumes "\<And>b x r cs. x \<notin> set quote_chars \<Longrightarrow> K (b, x # r, cs) = []"
    and "\<forall>x \<in> set c. x \<notin> set quote_chars \<and> \<not> is_line_terminator x"
  shows "concat (map K (star_lazy (run (Atom AnyChar)) (bef, c @ rest, caps))) =
         concat (map K (star_lazy (run (Atom AnyChar)) (rev c @ bef, rest, caps)))"
  using assms(2)
proof (induction c arbitrary: bef)
  case Nil
  then show ?case by simp
next
  case (Cons x c)
  then show ?case by (simp add: star_lazy_any_Cons assms(1))
qed

lemma lazy_group_tail:
  assumes "q' \<in> set quote_chars" and "c \<noteq> []"
    and "\<forall>x \<in> set c. x \<notin> set quote_chars \<and> \<not> is_line_terminator x"
    and "run rtail (q' # rev c @ bef, rest, (1, c) # caps) = [fin]"
  shows "\<exists>more. run (Seq (Group 1 (LazyPlus (Atom AnyChar))) (Seq (Atom (OneOf quote_chars)) rtail))
           (bef, c @ q' # rest, caps) = fin # more"
proof -
  obtain x c' where c: "c = x # c'" using assms(2) by (cases c) auto
  define K where "K = (\<lambda>st. run (Seq (Atom (OneOf quote_chars)) rtail)
      (case st of (bef', rest', caps') \<Rightarrow>
         (bef', rest', (1, rev (take (length bef' - length bef) bef')) # caps')))"
  have fail: "K (b, y # r, cs) = []" if "y \<notin> set quote_chars" for b y r cs
    using that by (simp add: K_def run_simps)
  have x: "x \<notin> set quote_chars" "\<not> is_line_terminator x"
    and c': "\<forall>x \<in> set c'. x \<notin> set quote_chars \<and> \<not> is_line_terminator x"
    using assms(3) c by auto
  have "run (Seq (Group 1 (LazyPlus (Atom AnyChar))) (Seq (Atom (OneOf quote_chars)) rtail))
           (bef, c @ q' # rest, caps)
      = concat (map K (star_lazy (run (Atom AnyChar)) (x # bef, c' @ q' # rest, caps)))"
    using x by (simp add: c K_def run_simps map_concat comp_def case_prod_beta)
  also have "\<dots> = concat (map K (star_lazy (run (Atom AnyChar)) (rev c' @ x # bef, q' # rest, caps)))"
    using lazy_skip [of K c' "x # bef" "q' # rest" caps] fail c' by blast
  also have "\<dots> = K (rev c' @ x # bef, q' # rest, caps)
      @ concat (map K (if is_line_terminator q' then []
                       else star_lazy (run (Atom AnyChar)) (q' # rev c' @ x # bef, rest, caps)))"
    by (simp add: star_lazy_any_Cons)
  also have "K (rev c' @ x # bef, q' # rest, caps) = [fin]"
    using assms(1,4) by (simp add: K_def c run_simps)
  finally show ?thesis by simp
qed

lemma star_greedy_Cons:
  "star_greedy (run (Atom cl)) (bef, x # xs, caps) =
     (if in_class cl x then star_greedy (run (Atom cl)) (x # bef, xs, caps) else [])
     @ [(bef, x # xs, caps)]"
  by (subst star_greedy.simps) (simp add: ahead_def run_simps)

lemma greedy_skip:
  assumes "\<And>b x r cs. x \<notin> set quote_chars \<Longrightarrow> K (b, x # r, cs) = []"
    and "\<forall>x \<in> set p. x \<notin> set quote_chars" and "q' \<in> set quote_chars"
  shows "concat (map K (star_greedy (run (Atom (NoneOf quote_chars))) (bef, p @ q' # rest, caps))) =
         K (rev p @ bef, q' # rest, caps)"
  using assms(2)
proof (induction p arbitrary: bef)
  case Nil
  then show ?case using assms(3) by (simp add: star_greedy_Cons)
next
  case (Cons x p)
  then show ?case by (simp add: star_greedy_Cons assms(1))
qed

lemma greedy_group_tail:
  assumes "q' \<in> set quote_chars" and "p \<noteq> []"
    and "\<forall>x \<in> set p. x \<notin> set quote_chars"
    and "run rtail (q' # rev p @ bef, rest, (1, p) # caps) = [fin]"
  shows "run (Seq (Group 1 (Plus (Atom (NoneOf quote_chars)))) (Seq (Atom (OneOf quote_chars)) rtail))
           (bef, p @ q' # rest, caps) = [fin]"
proof -
  obtain x p' where p: "p = x # p'" using assms(2) by (cases p) auto
  define K where "K = (\<lambda>st. run (Seq (Atom (OneOf quote_chars)) rtail)
      (case st of (bef', rest', caps') \<Rightarrow>
         (bef', rest', (1, rev (take (length bef' - length bef) bef')) # caps')))"
  have fail: "K (b, y # r, cs) = []" if "y \<notin> set quote_chars" for b y r cs
    using that by (simp add: K_def run_simps)
  have x: "x \<notin> set quote_chars" and p': "\<forall>x \<in> set p'. x \<notin> set quote_chars"
    using assms(3) p by auto
  have "run (Seq (Group 1 (Plus (Atom (NoneOf quote_chars)))) (Seq (Atom (OneOf quote_chars)) rtail))
           (bef, p @ q' # rest, caps)
      = concat (map K (star_greedy (run (Atom (NoneOf quote_chars))) (x # bef, p' @ q' # rest, caps)))"
    using x by (simp add: p K_def run_simps map_concat comp_def case_prod_beta)
  also have "\<dots> = K (rev p' @ x # bef, q' # rest, caps)"
    using greedy_skip [of K p' q' "x # bef" rest caps] fail p' assms(1) by blast
  also have "\<dots> = [fin]"
    using assms(1,4) by (simp add: K_def p run_simps)
  finally show ?thesis .
qed

lemma match_at_first:
  "run r (bef, m @ post, []) = (bef', post, caps) # alts \<Longrightarrow> match_at r bef (m @ post) = Some (m, caps)"
  by (simp add: match_at_def)

lemma match_all_skip:
  assumes "\<And>b u. \<not> P u \<Longrightarrow> match_at r b u = None"
    and "\<forall>i < length pre. \<not> P (drop i (pre @ t))"
  shows "match_all r 0 bef (pre @ t) = match_all r 0 (rev pre @ bef) t"
  using assms(2)
proof (induction pre arbitrary: bef)
  case Nil
  then show ?case by simp
next
  case (Cons x pre)
  from Cons.prems have "\<not> P ((x # pre) @ t)" by force
  then have none: "match_at r bef (x # pre @ t) = None" by (simp add: assms(1))
  have "\<forall>i < length pre. \<not> P (drop i (pre @ t))"
  proof (intro allI impI)
    fix i assume "i < length pre"
    then have "\<not> P (drop (Suc i) ((x # pre) @ t))" using Cons.prems by auto
    then show "\<not> P (drop i (pre @ t))" by simp
  qed
  from Cons.IH [OF this] none show ?case by simp
qed

lemma search_is_match_at: "search r bef t = Some x \<Longrightarrow> \<exists>b u. match_at r b u = Some x"
  by (induction t arbitrary: bef) (auto split: option.splits)

section \<open>The Logic Signal Extractor: duplicates\<close>

text \<open>
  The categories that go through a \<open>Set\<close> are the deduplicated lists of their matches
  (for \<open>methods\<close>: of the names cut from the matches), and a deduplicated list has no
  duplicates and keeps its entries in the order of their first occurrence.
\<close>

lemma deduped_categories:
  "(js_match_g content re_composable = Some ms \<longrightarrow>
      composables (extractLogicFromFile content) = Some (dedup ms))
   \<and> (js_match_g content re_vue_import = Some ms \<longrightarrow>
      vueImports (extractLogicFromFile content) = Some (dedup ms))
   \<and> (js_match_g content re_method = Some ms \<longrightarrow>
      methods (extractLogicFromFile content) =
        Some (dedup (filter (\<lambda>m. m \<notin> set [''setup'', ''render''])
                       (map (\<lambda>m. trim (before_paren m)) ms))))
   \<and> distinct (dedup xs)
   \<and> sorted_wrt (\<lambda>a b. first_index xs a < first_index xs b) (dedup xs)"
  by (simp add: extractLogicFromFile_def distinct_dedup dedup_first_seen_order)

text \<open>
  Claim C4 holds for \<open>composables\<close>, \<open>vueImports\<close> and \<open>methods\<close> (lemma
  \<open>deduped_categories\<close>) and fails for \<open>emits\<close>, the one category that the function
  does not pass through a \<open>Set\<close>: a text that emits the same event twice gets the event
  twice.
\<close>

theorem emits_keep_duplicates:
  "emits (extractLogicFromFile ''emit('a')emit('a')'') = Some [Some ''a'', Some ''a'']
   \<and> \<not> distinct [Some ''a'', Some ''a'']"
  by code_simp

section \<open>The Logic Signal Extractor: emitted events\<close>

lemma emit_match_at:
  assumes "q \<in> set quote_chars" and "q' \<in> set quote_chars" and "c \<noteq> []"
    and "\<forall>x \<in> set c. x \<notin> set quote_chars \<and> \<not> is_line_terminator x"
  shows "match_at re_emit bef (''emit('' @ q # c @ q' # '')'' @ post) =
           Some (''emit('' @ q # c @ q' # '')'', [(1, c)])"
proof -
  let ?b = "q # rev ''emit('' @ bef"
  let ?fin = "(CHR '')'' # q' # rev c @ ?b, post, [(1, c)])"
  have fin: "run (Seq (Atom (Lit CHR '')'')) Eps) (q' # rev c @ ?b, '')'' @ post, (1, c) # []) = [?fin]"
    by (simp add: run_simps)
  from lazy_group_tail [OF assms(2,3,4) fin]
  obtain more where "run (Seq (Group 1 (LazyPlus (Atom AnyChar)))
        (Seq (Atom (OneOf quote_chars)) (Seq (Atom (Lit CHR '')'')) Eps)))
      (?b, c @ q' # '')'' @ post, []) = ?fin # more"
    by blast
  then have "run re_emit (bef, (''emit('' @ q # c @ q' # '')'') @ post, []) = ?fin # more"
    using assms(1) by (simp add: re_emit_def seqs_simps run_Seq run_lits run_Atom)
  from match_at_first [OF this] show ?thesis by simp
qed

lemma emit_no_start: "\<not> starts_emit_call t \<Longrightarrow> match_at re_emit bef t = None"
  by (auto simp: starts_emit_call_def match_at_def re_emit_def seqs_simps run_Seq run_lits run_Atom
      split: list.splits)

lemma quoted_no_start: "x \<notin> set quote_chars \<Longrightarrow> match_at re_quoted bef (x # xs) = None"
  by (simp add: match_at_def re_quoted_def seqs_simps run_Seq run_Atom)

lemma emit_name_of_call:
  assumes "q \<in> set quote_chars" and "q' \<in> set quote_chars" and "c \<noteq> []"
    and "\<forall>x \<in> set c. x \<notin> set quote_chars \<and> \<not> is_line_terminator x"
  shows "emit_name (''emit('' @ q # c @ q' # '')'') = Some c"
proof -
  let ?b = "q # rev ''emit(''"
  let ?fin = "(q' # rev c @ ?b, '')'', [(1, c)])"
  have fin: "run Eps (q' # rev c @ ?b, '')'', (1, c) # []) = [?fin]"
    by (simp add: run_simps)
  from lazy_group_tail [OF assms(2,3,4) fin]
  obtain more where "run (Seq (Group 1 (LazyPlus (Atom AnyChar))) (Seq (Atom (OneOf quote_chars)) Eps))
      (?b, c @ q' # '')'', []) = ?fin # more"
    by blast
  then have "run re_quoted (rev ''emit('', (q # c @ [q']) @ '')'', []) = ?fin # more"
    using assms(1) by (simp add: re_quoted_def seqs_simps run_Seq run_Atom)
  from match_at_first [OF this]
  have "match_at re_quoted (rev ''emit('') (q # c @ q' # '')'') = Some (q # c @ [q'], [(1, c)])"
    by simp
  then have "js_match (''emit('' @ q # c @ q' # '')'') re_quoted = Some (q # c @ [q'], [(1, c)])"
    by (simp add: js_match_def quoted_no_start quote_chars_def)
  then show ?thesis by (simp add: emit_name_def)
qed

text \<open>
  Every match of the pattern is a stretch of the text without a line terminator, so a
  scan that is at or before the end of a line is at the start of the next line with no
  match pending; and on a stretch of simple calls the matches are the calls.
\<close>

lemma star_lazy_any_Nil:
  "star_lazy (run (Atom AnyChar)) (bef, [], caps) = [(bef, [], caps)]"
  by (subst star_lazy.simps) (simp add: run_simps)

lemma star_lazy_any_states:
  "st' \<in> set (star_lazy (run (Atom AnyChar)) (b, u, cs)) \<Longrightarrow>
     \<exists>m. u = m @ fst (snd st') \<and> (\<forall>x \<in> set m. \<not> is_line_terminator x)"
proof (induction u arbitrary: b)
  case Nil
  then show ?case by (simp add: star_lazy_any_Nil)
next
  case (Cons x u)
  from Cons.prems consider "st' = (b, x # u, cs)"
    | "\<not> is_line_terminator x" "st' \<in> set (star_lazy (run (Atom AnyChar)) (x # b, u, cs))"
    by (auto simp: star_lazy_any_Cons split: if_splits)
  then show ?case
  proof cases
    case 1
    then show ?thesis by simp
  next
    case 2
    from Cons.IH [OF 2(2)] obtain m where "u = m @ fst (snd st')" "\<forall>x \<in> set m. \<not> is_line_terminator x"
      by blast
    then have "x # u = (x # m) @ fst (snd st') \<and> (\<forall>y \<in> set (x # m). \<not> is_line_terminator y)"
      using 2(1) by simp
    then show ?thesis by blast
  qed
qed

lemma not_lt_quote: "q \<in> set quote_chars \<Longrightarrow> \<not> is_line_terminator q"
  by (auto simp: quote_chars_def is_line_terminator_def)

lemma startsWith_prefix: "startsWith u s \<Longrightarrow> u = s @ drop (length s) u"
  by (induction u s rule: startsWith.induct) auto

lemma run_Seq_elem:
  "st' \<in> set (run (Seq r1 r2) st) \<Longrightarrow> \<exists>s1 \<in> set (run r1 st). st' \<in> set (run r2 s1)"
  by (auto simp: run_Seq)

lemma run_Atom_elem:
  "st' \<in> set (run (Atom cl) st) \<Longrightarrow> \<exists>x. fst (snd st) = x # fst (snd st') \<and> in_class cl x"
  by (cases st) (auto simp: run_Atom split: list.splits if_splits)

lemma run_lits_elem: "st' \<in> set (run (lits s) st) \<Longrightarrow> fst (snd st) = s @ fst (snd st')"
  by (cases st) (auto simp: run_lits split: if_splits dest: startsWith_prefix)

lemma run_Group_elem:
  "st' \<in> set (run (Group n r) st) \<Longrightarrow> \<exists>s1 \<in> set (run r st). fst (snd st') = fst (snd s1)"
  by (cases st) (force simp: run_Group)

lemma run_LazyPlus_any_elem:
  assumes "st' \<in> set (run (LazyPlus (Atom AnyChar)) st)"
  shows "\<exists>m. fst (snd st) = m @ fst (snd st') \<and> (\<forall>x \<in> set m. \<not> is_line_terminator x)"
proof -
  from assms obtain s1 where s1: "s1 \<in> set (run (Atom AnyChar) st)"
    and st': "st' \<in> set (star_lazy (run (Atom AnyChar)) s1)"
    by (auto simp: run_LazyPlus)
  from run_Atom_elem [OF s1] obtain x where x: "fst (snd st) = x # fst (snd s1)" "\<not> is_line_terminator x"
    by auto
  obtain b u cs where t: "s1 = (b, u, cs)" by (cases s1)
  from star_lazy_any_states [OF st' [unfolded t]] obtain m
    where "u = m @ fst (snd st')" "\<forall>x \<in> set m. \<not> is_line_terminator x" by blast
  then have "fst (snd st) = (x # m) @ fst (snd st') \<and> (\<forall>y \<in> set (x # m). \<not> is_line_terminator y)"
    using x t by simp
  then show ?thesis by blast
qed

lemma run_re_emit_states:
  assumes "st' \<in> set (run re_emit st)"
  shows "\<exists>m. fst (snd st) = m @ fst (snd st') \<and> m \<noteq> [] \<and> (\<forall>x \<in> set m. \<not> is_line_terminator x)"
proof -
  from assms obtain s1 s2 s3 s4 s5 where
    1: "s1 \<in> set (run (lits ''emit('') st)" and
    2: "s2 \<in> set (run (Atom (OneOf quote_chars)) s1)" and
    3: "s3 \<in> set (run (Group 1 (LazyPlus (Atom AnyChar))) s2)" and
    4: "s4 \<in> set (run (Atom (OneOf quote_chars)) s3)" and
    5: "s5 \<in> set (run (Atom (Lit CHR '')'')) s4)" and
    6: "st' \<in> set (run Eps s5)"
    unfolding re_emit_def seqs_simps by (blast dest: run_Seq_elem)
  from run_Group_elem [OF 3] obtain s3' where g3: "s3' \<in> set (run (LazyPlus (Atom AnyChar)) s2)"
    and e3: "fst (snd s3) = fst (snd s3')" by blast
  from run_LazyPlus_any_elem [OF g3] obtain m where m: "fst (snd s2) = m @ fst (snd s3')"
    "\<forall>x \<in> set m. \<not> is_line_terminator x" by blast
  from run_Atom_elem [OF 2] obtain q where q: "fst (snd s1) = q # fst (snd s2)" "q \<in> set quote_chars"
    by auto
  from run_Atom_elem [OF 4] obtain q' where q': "fst (snd s3) = q' # fst (snd s4)" "q' \<in> set quote_chars"
    by auto
  from run_Atom_elem [OF 5] have p: "fst (snd s4) = CHR '')'' # fst (snd s5)" by auto
  from 6 have e: "st' = s5" by (simp add: run_Eps)
  have "fst (snd st) = (''emit('' @ q # m @ [q', CHR '')'']) @ fst (snd st')"
    using run_lits_elem [OF 1] q m e3 q' p e by simp
  moreover have "\<forall>x \<in> set (''emit('' @ q # m @ [q', CHR '')'']). \<not> is_line_terminator x"
    using m(2) not_lt_quote [OF q(2)] not_lt_quote [OF q'(2)] by (auto simp: is_line_terminator_def)
  ultimately show ?thesis by blast
qed

lemma emit_match_shape:
  assumes "match_at re_emit b u = Some (m, caps)"
  shows "(\<exists>r. u = m @ r) \<and> m \<noteq> [] \<and> (\<forall>x \<in> set m. \<not> is_line_terminator x)"
proof -
  from assms obtain b' r' alts where run: "run re_emit (b, u, []) = (b', r', caps) # alts"
    and m: "m = take (length u - length r') u"
    by (auto simp: match_at_def split: list.splits)
  then have "(b', r', caps) \<in> set (run re_emit (b, u, []))" by simp
  from run_re_emit_states [OF this] obtain w where "u = w @ r'" "w \<noteq> []"
    "\<forall>x \<in> set w. \<not> is_line_terminator x" by auto
  then show ?thesis using m by auto
qed

lemma scan_to_line_start:
  assumes "line_start A" and "skip \<le> length A"
  shows "\<exists>ms. match_all re_emit skip bef (A @ t) = ms @ match_all re_emit 0 (rev A @ bef) t"
  using assms
proof (induction A arbitrary: skip bef)
  case Nil
  then show ?case by simp
next
  case (Cons x A)
  have ls: "line_start A"
    using Cons.prems(1) by (cases "rev A") (auto simp: line_start_def)
  show ?case
  proof (cases "0 < skip")
    case True
    then have "skip - 1 \<le> length A" using Cons.prems(2) by simp
    from Cons.IH [OF ls this, of "x # bef"] True show ?thesis by simp
  next
    case False
    show ?thesis
    proof (cases "match_at re_emit bef (x # A @ t)")
      case None
      from Cons.IH [OF ls, of 0 "x # bef"] None False show ?thesis by simp
    next
      case (Some mc)
      obtain m caps where mc: "mc = (m, caps)" by (cases mc)
      from emit_match_shape [OF Some [unfolded mc]] obtain r where
        r: "x # A @ t = m @ r" and ne: "m \<noteq> []" and nolt: "\<forall>y \<in> set m. \<not> is_line_terminator y"
        by auto
      have "length m \<le> length A"
      proof (rule ccontr)
        assume "\<not> length m \<le> length A"
        then have "length (x # A) \<le> length m" by simp
        then have "set (x # A) \<subseteq> set m"
          using r by (metis append_eq_append_conv_if append_Cons set_take_subset take_all_iff
              append_eq_conv_conj set_append Un_upper1)
        moreover have "is_line_terminator (last (x # A))"
        proof -
          from Cons.prems(1) obtain z zs where "rev (x # A) = z # zs" "is_line_terminator z"
            by (auto simp: line_start_def split: list.splits)
          then show ?thesis by (metis hd_rev list.sel(1))
        qed
        ultimately show False using nolt by (metis last_in_set list.distinct(1) subsetD)
      qed
      then have "length m - 1 \<le> length A" by simp
      from Cons.IH [OF ls this, of "x # bef"] obtain ms where
        "match_all re_emit (length m - 1) (x # bef) (A @ t) = ms @ match_all re_emit 0 (rev A @ x # bef) t"
        by blast
      then have "match_all re_emit skip bef ((x # A) @ t) = (m # ms) @ match_all re_emit 0 (rev (x # A) @ bef) t"
        using False Some mc by simp
      then show ?thesis by blast
    qed
  qed
qed

lemma skip_exact: "match_all r (length w) b (w @ t) = match_all r 0 (rev w @ b) t"
  by (induction w arbitrary: b) simp_all

lemma scan_simple_calls:
  assumes "simple_calls segs final"
  shows "\<exists>bef'. match_all re_emit 0 bef (emit_text segs final) =
           map (\<lambda>(gap, q, c, q'). call_text q c q') segs @ match_all re_emit 0 bef' final"
  using assms
proof (induction segs arbitrary: bef)
  case Nil
  then show ?case by auto
next
  case (Cons seg segs)
  obtain gap q c q' where seg: "seg = (gap, q, c, q')" by (cases seg)
  let ?rest = "emit_text segs final"
  from Cons.prems have q: "q \<in> set quote_chars" "q' \<in> set quote_chars" "c \<noteq> []"
    and clean: "\<forall>x \<in> set c. x \<notin> set quote_chars \<and> \<not> is_line_terminator x"
    and gap: "\<forall>i < length gap. \<not> starts_emit_call (drop i (gap @ call_text q c q' @ ?rest))"
    and rest: "simple_calls segs final"
    by (auto simp: seg list_all_iff)
  have "match_all re_emit 0 bef (gap @ call_text q c q' @ ?rest)
      = match_all re_emit 0 (rev gap @ bef) (call_text q c q' @ ?rest)"
    using match_all_skip [of starts_emit_call re_emit gap "call_text q c q' @ ?rest" bef]
      emit_no_start gap by simp
  also have "\<dots> = call_text q c q'
      # match_all re_emit (length (''mit('' @ q # c @ q' # '')'')) (CHR ''e'' # rev gap @ bef)
          ((''mit('' @ q # c @ q' # '')'') @ ?rest)"
    using emit_match_at [OF q clean, of "rev gap @ bef" ?rest] by (simp add: call_text_def)
  also have "\<dots> = call_text q c q'
      # match_all re_emit 0 (rev (''mit('' @ q # c @ q' # '')'') @ CHR ''e'' # rev gap @ bef) ?rest"
    by (simp only: skip_exact)
  finally have step: "match_all re_emit 0 bef (emit_text (seg # segs) final) = call_text q c q'
      # match_all re_emit 0 (rev (''mit('' @ q # c @ q' # '')'') @ CHR ''e'' # rev gap @ bef) ?rest"
    by (simp add: seg)
  from Cons.IH [OF rest] obtain bef' where
    "match_all re_emit 0 (rev (''mit('' @ q # c @ q' # '')'') @ CHR ''e'' # rev gap @ bef) ?rest
      = map (\<lambda>(gap, q, c, q'). call_text q c q') segs @ match_all re_emit 0 bef' final"
    by blast
  with step show ?case by (auto simp: seg)
qed

lemma emit_name_call_text:
  assumes "simple_calls segs final"
  shows "map emit_name (map (\<lambda>(gap, q, c, q'). call_text q c q') segs) = call_names segs"
  using assms
proof (induction segs)
  case Nil
  then show ?case by (simp add: call_names_def)
next
  case (Cons seg segs)
  obtain gap q c q' where seg: "seg = (gap, q, c, q')" by (cases seg)
  from Cons.prems have q: "q \<in> set quote_chars" "q' \<in> set quote_chars" "c \<noteq> []"
    and clean: "\<forall>x \<in> set c. x \<notin> set quote_chars \<and> \<not> is_line_terminator x"
    and rest: "simple_calls segs final"
    by (auto simp: seg list_all_iff)
  from emit_name_of_call [OF q clean] Cons.IH [OF rest] show ?case
    by (simp add: seg call_names_def call_text_def)
qed

text \<open>
  Claim C5, as amended.  Take a stretch of a text that begins at the start of a line
  (at the start of the text or right after a line terminator) and in which, up to its
  last call, every place where \<open>emit(\<close> and a quote character stand is a call
  \<open>emit(<quote>name<quote>)\<close>, with the closing parenthesis directly after the string
  literal and a name that is not empty and has no quote character and no line
  terminator in it.  Then the names of these calls are entries of \<open>emits\<close>, in the
  order of the calls and once for each call.  When the stretch is the whole text and
  no such place comes after the last call, \<open>emits\<close> is the list of these names.
\<close>

theorem simple_emit_calls_extracted:
  assumes "line_start before" and "simple_calls segs final" and "segs \<noteq> []"
  shows "(\<exists>earlier later.
            emits (extractLogicFromFile (before @ emit_text segs final))
              = Some (earlier @ call_names segs @ later))
    \<and> (before = [] \<and> list_all (\<lambda>i. \<not> starts_emit_call (drop i final)) [0..<length final]
        \<longrightarrow> emits (extractLogicFromFile (emit_text segs final)) = Some (call_names segs))"
proof -
  have names: "map emit_name (map (\<lambda>(gap, q, c, q'). call_text q c q') segs) = call_names segs"
    by (rule emit_name_call_text [OF assms(2)])
  have ne: "map (\<lambda>(gap, q, c, q'). call_text q c q') segs \<noteq> []" using assms(3) by simp
  have gen: "\<exists>ms bef'. match_all re_emit 0 [] (A @ emit_text segs final)
      = ms @ map (\<lambda>(gap, q, c, q'). call_text q c q') segs @ match_all re_emit 0 bef' final"
    if "line_start A" for A
  proof -
    from scan_to_line_start [where skip = 0 and bef = "[]" and t = "emit_text segs final", OF that]
    obtain ms where
      "match_all re_emit 0 [] (A @ emit_text segs final) = ms @ match_all re_emit 0 (rev A @ []) (emit_text segs final)"
      by auto
    moreover from scan_simple_calls [OF assms(2), of "rev A @ []"] obtain bef' where
      "match_all re_emit 0 (rev A @ []) (emit_text segs final)
        = map (\<lambda>(gap, q, c, q'). call_text q c q') segs @ match_all re_emit 0 bef' final"
      by blast
    ultimately show ?thesis by auto
  qed
  have emits_of: "emits (extractLogicFromFile txt0) = Some (map emit_name ms)"
    if "match_all re_emit 0 [] txt0 = ms" "ms \<noteq> []" for txt0 ms
    using that by (cases ms) (simp_all add: extractLogicFromFile_def js_match_g_def)
  have first: "\<exists>earlier later. emits (extractLogicFromFile (before @ emit_text segs final))
              = Some (earlier @ call_names segs @ later)"
  proof -
    from gen [OF assms(1)] obtain ms bef' where m: "match_all re_emit 0 [] (before @ emit_text segs final)
      = ms @ map (\<lambda>(gap, q, c, q'). call_text q c q') segs @ match_all re_emit 0 bef' final"
      by blast
    have "emits (extractLogicFromFile (before @ emit_text segs final))
       = Some (map emit_name (ms @ map (\<lambda>(gap, q, c, q'). call_text q c q') segs @ match_all re_emit 0 bef' final))"
      using emits_of [OF m] ne by simp
    then show ?thesis using names by (metis map_append)
  qed
  have second: "emits (extractLogicFromFile (emit_text segs final)) = Some (call_names segs)"
    if "list_all (\<lambda>i. \<not> starts_emit_call (drop i final)) [0..<length final]"
  proof -
    from scan_simple_calls [OF assms(2), of "[]"] obtain bef' where
      m: "match_all re_emit 0 [] (emit_text segs final)
        = map (\<lambda>(gap, q, c, q'). call_text q c q') segs @ match_all re_emit 0 bef' final"
      by blast
    have "\<forall>i < length final. \<not> starts_emit_call (drop i (final @ []))"
      using that by (simp add: list_all_iff)
    from match_all_skip [of starts_emit_call re_emit final "[]" bef', OF emit_no_start this]
    have "match_all re_emit 0 bef' final = match_all re_emit 0 (rev final @ bef') []" by simp
    also have "\<dots> = []"
      by (simp add: emit_no_start starts_emit_call_def)
    finally have "match_all re_emit 0 [] (emit_text segs final)
        = map (\<lambda>(gap, q, c, q'). call_text q c q') segs"
      using m by simp
    from emits_of [OF this ne] names show ?thesis by simp
  qed
  show ?thesis using first second by blast
qed

text \<open>
  A call with a further argument on the line before does not disturb the two calls of
  the next line, and the call with a further argument after them leaves no entry; a
  text with the same call twice lists the name twice.
\<close>

theorem simple_emit_calls_extracted_witness:
  "emits (extractLogicFromFile
      (''emit('x', y);'' @ [CHR 0x0A]
       @ emit_text [(''  '', CHR 0x27, ''open'', CHR 0x27), (''; '', CHR 0x60, ''close'', CHR 0x60)]
           ''; emit('c', 1)''))
     = Some [Some ''open'', Some ''close'']
   \<and> emits (extractLogicFromFile
        (emit_text [(''a; '', CHR 0x27, ''open'', CHR 0x27), (''; '', CHR 0x27, ''open'', CHR 0x27)] ''; b''))
     = Some [Some ''open'', Some ''open'']"
proof -
  let ?before = "''emit('x', y);'' @ [CHR 0x0A]"
  let ?segs = "[(''  '', CHR 0x27, ''open'', CHR 0x27), (''; '', CHR 0x60, ''close'', CHR 0x60)]"
  let ?segs2 = "[(''a; '', CHR 0x27, ''open'', CHR 0x27), (''; '', CHR 0x27, ''open'', CHR 0x27)]"
  have l: "line_start ?before" "line_start []"
    by (simp_all add: line_start_def is_line_terminator_def)
  have c: "simple_calls ?segs ''; emit('c', 1)''" "simple_calls ?segs2 ''; b''"
    by code_simp+
  have n: "?segs \<noteq> []" "?segs2 \<noteq> []" by simp_all
  have f: "list_all (\<lambda>i. \<not> starts_emit_call (drop i ''; b'')) [0..<length ''; b'']"
    by code_simp
  from simple_emit_calls_extracted [OF l(1) c(1) n(1)] obtain earlier later where
    "emits (extractLogicFromFile (?before @ emit_text ?segs ''; emit('c', 1)''))
       = Some (earlier @ call_names ?segs @ later)"
    by blast
  moreover have "length (the (emits (extractLogicFromFile (?before @ emit_text ?segs ''; emit('c', 1)'')))) = 2"
    by code_simp
  ultimately have first: "emits (extractLogicFromFile (?before @ emit_text ?segs ''; emit('c', 1)''))
       = Some [Some ''open'', Some ''close'']"
    by (simp add: call_names_def)
  from simple_emit_calls_extracted [OF l(2) c(2) n(2)] f
  have "emits (extractLogicFromFile (emit_text ?segs2 ''; b'')) = Some (call_names ?segs2)"
    by blast
  then show ?thesis using first by (simp add: call_names_def)
qed

text \<open>
  Claim C5 as stated fails.  A call with a further argument has no match when no quote
  character with a parenthesis after it follows on the line, and then the result has no
  \<open>emits\<close>.  The match of such a call can also run on to the end of a later call on
  the same line, and the name of that later call is lost.  A name with a quote
  character in it is cut at that character.
\<close>

theorem emit_with_arguments_counterexample:
  "emits (extractLogicFromFile ''emit('change', value)'') = None
   \<and> emits (extractLogicFromFile ''emit('x', y); emit('a')'') = Some [Some ''x'']
   \<and> emits (extractLogicFromFile ''emit(`it's`)'') = Some [Some ''it'']"
  by code_simp

text \<open>
  A call with further arguments is matched when a later argument is a string literal
  that the closing parenthesis follows, and it then yields its first argument.
\<close>

lemma second_literal_closes_match:
  "emits (extractLogicFromFile ''emit('a', 'b')'') = Some [Some ''a'']"
  by code_simp

section \<open>The Token Extractor: keys, values and the last write\<close>

lemma fold_last_write:
  "fold (\<lambda>(k', v) r. if k' = k then Some v else r) ws r0 =
     (case map_of (rev ws) k of Some v \<Rightarrow> Some v | None \<Rightarrow> r0)"
  by (induction ws arbitrary: r0) (auto simp: map_of_append map_add_def split: option.splits)

lemma last_write_map_of: "last_write ws k = map_of (rev ws) k"
  by (simp add: last_write_def fold_last_write split: option.splits)

lemma last_write_append:
  "last_write (ws @ ws') k = (case last_write ws' k of Some v \<Rightarrow> Some v | None \<Rightarrow> last_write ws k)"
  by (simp add: last_write_map_of map_add_def split: option.splits)

lemma token_key_not_proto: "token_key p \<noteq> ''__proto__''"
  by (simp add: token_key_def)

lemma map_of_token_step:
  "map_of (token_step m tokens) k =
     (case last_write (map (\<lambda>p. (token_key p, token_value p)) (List.map_filter match_path [m])) k of
        Some v \<Rightarrow> Some v
      | None \<Rightarrow> map_of tokens k)"
  by (auto simp: token_step_def match_path_def List.map_filter_simps last_write_def
      js_assign_def token_key_not_proto map_of_obj_set split: option.splits)

lemma map_filter_append: "List.map_filter f (xs @ ys) = List.map_filter f xs @ List.map_filter f ys"
  by (simp add: List.map_filter_def)

lemma map_of_fold_token_step:
  "map_of (fold token_step ms tokens) k =
     (case last_write (map (\<lambda>p. (token_key p, token_value p)) (List.map_filter match_path ms)) k of
        Some v \<Rightarrow> Some v
      | None \<Rightarrow> map_of tokens k)"
proof (induction ms arbitrary: tokens)
  case Nil
  then show ?case by (simp add: List.map_filter_simps last_write_def)
next
  case (Cons m ms)
  have split: "List.map_filter match_path (m # ms) = List.map_filter match_path [m] @ List.map_filter match_path ms"
    using map_filter_append [of match_path "[m]" ms] by simp
  show ?case
    by (simp only: fold_Cons comp_apply Cons.IH split map_append last_write_append map_of_token_step)
       (simp split: option.splits)
qed

lemma map_of_extractTokensFromFile:
  "map_of (extractTokensFromFile content) k = last_write (token_writes content) k"
  by (simp add: extractTokensFromFile_def token_writes_def dt_matches_def map_of_fold_token_step
      List.map_filter_simps last_write_def split: option.splits)

lemma extract_no_proto: "''__proto__'' \<notin> fst ` set (extractTokensFromFile content)"
proof -
  have "map_of (extractTokensFromFile content) ''__proto__'' = None"
    unfolding map_of_extractTokensFromFile last_write_map_of
    using token_key_not_proto by (fastforce simp: map_of_eq_None_iff token_writes_def)
  then show ?thesis by (simp add: map_of_eq_None_iff)
qed

lemma map_of_object_assign:
  assumes "''__proto__'' \<notin> fst ` set source"
  shows "map_of (object_assign target source) k =
     (case map_of source k of Some v \<Rightarrow> Some v | None \<Rightarrow> map_of target k)"
proof -
  have keys: "fst ` set (own_entries source) = fst ` set source"
    using set_map [of fst "own_entries source"] by (simp add: keys_own_entries set_own_keys)
  have "fold (\<lambda>(k, v). js_assign k v) (own_entries source) target
      = fold (\<lambda>(k, v). obj_set k v) (own_entries source) target"
  proof (intro fold_cong refl)
    fix e assume "e \<in> set (own_entries source)"
    then have "fst e \<noteq> ''__proto__''" using assms keys by force
    then show "(case e of (k, v) \<Rightarrow> js_assign k v) = (case e of (k, v) \<Rightarrow> obj_set k v)"
      by (cases e) (simp add: js_assign_def fun_eq_iff)
  qed
  then show ?thesis
    by (simp add: object_assign_def map_of_fold_obj_set map_of_rev_distinct keys_own_entries
        distinct_own_keys map_of_own_entries)
qed

lemma no_match_in_empty: "token_writes [] = []"
  by code_simp

lemma map_of_visit_file:
  "map_of (visit_file f tokens) k =
     (case last_write (file_writes f) k of Some v \<Rightarrow> Some v | None \<Rightarrow> map_of tokens k)"
proof (cases f)
  case None
  then show ?thesis by (simp add: visit_file_def last_write_def)
next
  case (Some content)
  then show ?thesis
    by (simp add: visit_file_def no_match_in_empty last_write_def [of "[]"]
        map_of_object_assign [OF extract_no_proto] map_of_extractTokensFromFile)
qed

lemma map_of_fold_visit_file:
  "map_of (fold visit_file files tokens) k =
     (case last_write (concat (map file_writes files)) k of
        Some v \<Rightarrow> Some v
      | None \<Rightarrow> map_of tokens k)"
proof (induction files arbitrary: tokens)
  case Nil
  then show ?case by (simp add: last_write_def)
next
  case (Cons f fs)
  show ?case
    by (simp add: Cons.IH map_of_visit_file last_write_append split: option.splits)
qed

lemma dt_no_start: "\<not> starts_dt_call t \<Longrightarrow> match_at re_dt bef t = None"
  by (auto simp: starts_dt_call_def match_at_def re_dt_def seqs_simps run_Seq run_lits run_Atom
      split: list.splits)

lemma dt_match_at:
  assumes "q \<in> set quote_chars" and "q' \<in> set quote_chars" and "p \<noteq> []"
    and "\<forall>x \<in> set p. x \<notin> set quote_chars"
  shows "match_at re_dt bef (''dt('' @ q # p @ q' # '')'' @ post) =
           Some (''dt('' @ q # p @ q' # '')'', [(1, p)])"
proof -
  let ?b = "q # rev ''dt('' @ bef"
  let ?fin = "(CHR '')'' # q' # rev p @ ?b, post, [(1, p)])"
  have fin: "run (Seq (Atom (Lit CHR '')'')) Eps) (q' # rev p @ ?b, '')'' @ post, (1, p) # []) = [?fin]"
    by (simp add: run_simps)
  from greedy_group_tail [OF assms(2,3,4) fin]
  have "run re_dt (bef, (''dt('' @ q # p @ q' # '')'') @ post, []) = ?fin # []"
    using assms(1) by (simp add: re_dt_def seqs_simps run_Seq run_lits run_Atom)
  from match_at_first [OF this] show ?thesis by simp
qed

lemma match_path_of_call:
  assumes "q \<in> set quote_chars" and "q' \<in> set quote_chars" and "p \<noteq> []"
    and "\<forall>x \<in> set p. x \<notin> set quote_chars"
  shows "match_path (''dt('' @ q # p @ q' # '')'') = Some p"
  using dt_match_at [OF assms, of "[]" "[]"]
  by (simp add: match_path_def js_match_def)

lemma first_dt_call_written:
  assumes "q \<in> set quote_chars" and "q' \<in> set quote_chars" and "p \<noteq> []"
    and "\<forall>x \<in> set p. x \<notin> set quote_chars"
    and "\<forall>i < length pre. \<not> starts_dt_call (drop i (pre @ ''dt('' @ q # p @ q' # '')'' @ post))"
  shows "\<exists>others. token_writes (pre @ ''dt('' @ q # p @ q' # '')'' @ post)
           = (token_key p, token_value p) # others"
proof -
  let ?call = "''dt('' @ q # p @ q' # '')''"
  have "match_all re_dt 0 [] (pre @ ?call @ post) = match_all re_dt 0 (rev pre @ []) (?call @ post)"
    using match_all_skip [of starts_dt_call re_dt pre "?call @ post" "[]"] dt_no_start assms(5)
    by simp
  also have "\<dots> = ?call # match_all re_dt (length ?call - 1) (CHR ''d'' # rev pre) (''t('' @ q # p @ q' # '')'' @ post)"
    using dt_match_at [OF assms(1-4), of "rev pre" post] by simp
  finally have "dt_matches (pre @ ?call @ post) =
      ?call # match_all re_dt (length ?call - 1) (CHR ''d'' # rev pre) (''t('' @ q # p @ q' # '')'' @ post)"
    by (simp add: dt_matches_def js_match_g_def)
  then show ?thesis
    using match_path_of_call [OF assms(1-4)]
    by (simp add: token_writes_def List.map_filter_simps)
qed

text \<open>Group 1 takes part in every match of the pattern.\<close>

lemma dt_match_has_path:
  assumes "js_match m re_dt = Some (whole, caps)"
  shows "\<exists>tokenPath. map_of caps 1 = Some tokenPath"
proof -
  from assms obtain b u where "match_at re_dt b u = Some (whole, caps)"
    unfolding js_match_def by (blast dest: search_is_match_at)
  then obtain st alts where st: "run re_dt (b, u, []) = st # alts" and caps: "caps = snd (snd st)"
    by (auto simp: match_at_def split: list.splits)
  have "st \<in> set (run re_dt (b, u, []))" using st by simp
  then have "\<exists>p cs. snd (snd st) = (1, p) # cs"
    by (auto simp: re_dt_def seqs_simps run_Seq run_lits run_Atom run_Group run_Eps
        split: list.splits if_splits)
  then show ?thesis using caps by auto
qed

text \<open>
  Claim C7, as amended.  Every match of \<open>dt(<quote>path<quote>)\<close> writes the key \<open>--p-\<close>
  followed by the captured path with each dot replaced by a hyphen, and the value
  \<open>dt('path')\<close>: the call built again from the captured path, always in single
  quotes, whichever quote characters the call had.  The token map of one file holds
  under each key the last write of that file, and the token map that \<open>main\<close> writes
  holds under each key the last write to it in the order in which the files are
  visited (first package root, then the second; within a root in directory order) and,
  within one file, in match order.  The pattern matches the call with each of the three
  quote characters: at the first place of a text where \<open>dt(\<close> and a quote character
  stand, a call \<open>dt(<quote>path<quote>)\<close> with a path that is not empty and has no quote
  character in it is the first match, and its write is as said.
\<close>

theorem tokens_last_write_wins:
  "map_of (main_tokens styles styled) k =
     last_write (concat (map file_writes (findTokenFiles styles @ findTokenFiles styled))) k
   \<and> map_of (extractTokensFromFile content) k = last_write (token_writes content) k
   \<and> token_writes content =
       map (\<lambda>tokenPath. (''--p-'' @ map (\<lambda>ch. if ch = CHR ''.'' then CHR ''-'' else ch) tokenPath,
                          ''dt('' @ [CHR 0x27] @ tokenPath @ [CHR 0x27] @ '')''))
         (List.map_filter match_path (dt_matches content))
   \<and> (q \<in> set quote_chars \<and> q' \<in> set quote_chars \<and> p \<noteq> []
        \<and> (\<forall>x \<in> set p. x \<notin> set quote_chars)
        \<and> (\<forall>i < length pre. \<not> starts_dt_call (drop i (pre @ ''dt('' @ q # p @ q' # '')'' @ post)))
      \<longrightarrow> (\<exists>others. token_writes (pre @ ''dt('' @ q # p @ q' # '')'' @ post) =
             (''--p-'' @ map (\<lambda>ch. if ch = CHR ''.'' then CHR ''-'' else ch) p,
              ''dt('' @ [CHR 0x27] @ p @ [CHR 0x27] @ '')'') # others))"
proof -
  have files: "map_of (main_tokens styles styled) k =
     last_write (concat (map file_writes (findTokenFiles styles @ findTokenFiles styled))) k"
    by (simp add: main_tokens_def map_of_fold_visit_file last_write_append last_write_def [of "[]"]
        split: option.splits)
  have shape: "token_writes content =
       map (\<lambda>tokenPath. (''--p-'' @ map (\<lambda>ch. if ch = CHR ''.'' then CHR ''-'' else ch) tokenPath,
                          ''dt('' @ [CHR 0x27] @ tokenPath @ [CHR 0x27] @ '')''))
         (List.map_filter match_path (dt_matches content))"
    by (simp add: token_writes_def token_key_def token_value_def dots_to_hyphens_def)
  have call: "\<exists>others. token_writes (pre @ ''dt('' @ q # p @ q' # '')'' @ post) =
             (''--p-'' @ map (\<lambda>ch. if ch = CHR ''.'' then CHR ''-'' else ch) p,
              ''dt('' @ [CHR 0x27] @ p @ [CHR 0x27] @ '')'') # others"
    if "q \<in> set quote_chars" "q' \<in> set quote_chars" "p \<noteq> []" "\<forall>x \<in> set p. x \<notin> set quote_chars"
      "\<forall>i < length pre. \<not> starts_dt_call (drop i (pre @ ''dt('' @ q # p @ q' # '')'' @ post))"
    using first_dt_call_written [OF that]
    by (simp add: token_key_def token_value_def dots_to_hyphens_def)
  show ?thesis
    using files shape call map_of_extractTokensFromFile [of content k] by blast
qed

text \<open>
  Two files write the same key, the first from the path \<open>a-b\<close> in single quotes, the
  second, in a subdirectory, from the path \<open>a.b\<close> in backticks: the dot of the second
  path is a hyphen in the key, and the value of the second file stays.
\<close>

theorem tokens_last_write_wins_witness:
  "map_of (main_tokens (Some [File ''theme.js'' (Some ''x = dt('a-b')'')])
                       (Some [Dir ''button'' [File ''index.mjs'' (Some ''y = dt(`a.b`)'')]]))
     ''--p-a-b'' = Some ''dt('a.b')''
   \<and> (\<exists>others. token_writes ''y = dt(`a.b`)'' = (''--p-a-b'', ''dt('a.b')'') # others)"
proof -
  have w: "last_write (concat (map file_writes
             (findTokenFiles (Some [File ''theme.js'' (Some ''x = dt('a-b')'')])
              @ findTokenFiles (Some [Dir ''button'' [File ''index.mjs'' (Some ''y = dt(`a.b`)'')]]))))
           ''--p-a-b'' = Some ''dt('a.b')''"
    by code_simp
  have h: "CHR 0x60 \<in> set quote_chars \<and> CHR 0x60 \<in> set quote_chars \<and> ''a.b'' \<noteq> []
        \<and> (\<forall>x \<in> set ''a.b''. x \<notin> set quote_chars)
        \<and> (\<forall>i < length ''y = ''.
              \<not> starts_dt_call (drop i (''y = '' @ ''dt('' @ CHR 0x60 # ''a.b'' @ CHR 0x60 # '')'' @ [])))"
    by (simp add: quote_chars_def starts_dt_call_def less_Suc_eq eval_nat_numeral)
  note t = tokens_last_write_wins
      [of "Some [File ''theme.js'' (Some ''x = dt('a-b')'')]"
          "Some [Dir ''button'' [File ''index.mjs'' (Some ''y = dt(`a.b`)'')]]" "''--p-a-b''" "[]"
          "CHR 0x60" "CHR 0x60" "''a.b''" "''y = ''" "[]"]
  have "\<exists>others. token_writes (''y = '' @ ''dt('' @ CHR 0x60 # ''a.b'' @ CHR 0x60 # '')'' @ []) =
      (''--p-'' @ map (\<lambda>ch. if ch = CHR ''.'' then CHR ''-'' else ch) ''a.b'',
       ''dt('' @ [CHR 0x27] @ ''a.b'' @ [CHR 0x27] @ '')'') # others"
    using t h by blast
  then have "\<exists>others. token_writes ''y = dt(`a.b`)'' = (''--p-a-b'', ''dt('a.b')'') # others"
    by simp
  moreover have "map_of (main_tokens (Some [File ''theme.js'' (Some ''x = dt('a-b')'')])
                       (Some [Dir ''button'' [File ''index.mjs'' (Some ''y = dt(`a.b`)'')]]))
     ''--p-a-b'' = Some ''dt('a.b')''"
    using t w by simp
  ultimately show ?thesis by blast
qed

text \<open>
  Claim C7 as stated fails for a call in backticks (or in double quotes): the match is
  the call as it stands in the text, and the stored value is the call in single quotes,
  which is another text.
\<close>

theorem token_value_quotes_counterexample:
  "dt_matches ''y = dt(`a.b`)'' = [''dt(`a.b`)'']
   \<and> extractTokensFromFile ''y = dt(`a.b`)'' = [(''--p-a-b'', ''dt('a.b')'')]
   \<and> ''dt('a.b')'' \<noteq> ''dt(`a.b`)''"
  by code_simp

lemma extract_tokens_sample:
  "extractTokensFromFile ''a dt('button.border.radius') b dt('button.border.radius')'' =
     [(''--p-button-border-radius'', ''dt('button.border.radius')'')]"
  by code_simp

section \<open>The servers: what the cache can hold\<close>

text \<open>The handlers keep \<open>cache_inv\<close>, so it holds in every reachable state of the cache.\<close>

lemma filter_e_subset: "filter_e p xs = Inr ys \<Longrightarrow> set ys \<subseteq> set xs"
  by (induction xs arbitrary: ys) (auto split: sum.splits if_splits)

lemma sum_name_summarize: "sum_name (summarize data key) = key"
  by (simp add: summarize_def Let_def)

lemma compute_components_good:
  assumes "compute_components data q = Inr r"
  shows "good_components data r"
proof -
  define keys where "keys = filter (\<lambda>key. key \<noteq> ''_tokens'') (own_keys data)"
  consider (all) "r = map (summarize data) keys"
    | (some) tm ks where "filter_e (key_matches data tm) keys = Inr ks"
        and "r = map (summarize data) ks"
    using assms
    by (auto simp: compute_components_def Let_def keys_def split: sum.splits option.splits if_splits)
  then have "\<exists>ks. set ks \<subseteq> set keys \<and> r = map (summarize data) ks"
  proof cases
    case all
    then show ?thesis by blast
  next
    case some
    then show ?thesis using filter_e_subset by blast
  qed
  then show ?thesis
    unfolding good_components_def keys_def by (fastforce simp: sum_name_summarize)
qed

lemma collect_e_no_reserved:
  "collect_e (component_hit term) es = Inr hits \<Longrightarrow> \<forall>h \<in> set hits. \<not> is_reserved_hit h"
proof (induction es arbitrary: hits)
  case Nil
  then show ?case by simp
next
  case (Cons e es)
  obtain k v where e: "e = (k, v)" by (cases e)
  from Cons.prems obtain ys zs where ys: "component_hit term e = Inr ys"
    and zs: "collect_e (component_hit term) es = Inr zs" and hits: "hits = ys @ zs"
    by (auto split: sum.splits)
  have "\<forall>h \<in> set ys. \<not> is_reserved_hit h"
    using ys by (auto simp: component_hit_def e Let_def split: if_splits sum.splits)
  with Cons.IH [OF zs] hits show ?case by auto
qed

lemma token_hits_no_reserved: "\<forall>h \<in> set (token_hits data term). \<not> is_reserved_hit h"
  by (auto simp: token_hits_def split: option.splits)

lemma compute_search_no_reserved:
  "compute_search data q = Inr r \<Longrightarrow> \<forall>h \<in> set (sr_results r). \<not> is_reserved_hit h"
  using token_hits_no_reserved [of data "toLowerCase q"]
  by (auto simp: compute_search_def Let_def split: sum.splits dest!: collect_e_no_reserved)

lemma search_key_inject: "''search:'' @ s = ''search:'' @ s' \<longleftrightarrow> s = s'"
  by simp

lemma cache_inv_components:
  assumes "cache_inv data c"
  shows "cache_inv data (snd (get_mcp_components data q now later c))"
  using assms compute_components_good [of data q]
  by (auto simp: cache_inv_def get_mcp_components_def getCachedOrCompute_def setCache_def
      components_key_def split: option.splits sum.splits if_splits)

lemma cache_inv_tokens:
  assumes "cache_inv data c"
  shows "cache_inv data (snd (get_mcp_tokens data q now later c))"
  using assms
  by (auto simp: cache_inv_def get_mcp_tokens_def getCachedOrCompute_def setCache_def
      tokens_key_def split: option.splits sum.splits if_splits)

lemma cache_inv_search:
  assumes "cache_inv data c"
  shows "cache_inv data (snd (get_mcp_search data q now later c))"
  using assms
  by (auto simp: cache_inv_def get_mcp_search_def getCachedOrCompute_def setCache_def
      split: option.splits sum.splits if_splits)

lemma reachable_cache_inv: "reachable data c \<Longrightarrow> cache_inv data c"
proof (induction rule: reachable.induct)
  case start
  then show ?case by (simp add: cache_inv_def empty_cache_def)
next
  case (components c q now later)
  then show ?case by (simp add: cache_inv_components)
next
  case (tokens c q now later)
  then show ?case by (simp add: cache_inv_tokens)
next
  case (search c q now later)
  then show ?case by (simp add: cache_inv_search)
next
  case (clear c)
  then show ?case by (simp add: cache_inv_def post_cache_clear_def empty_cache_def)
qed

lemma components_response_good:
  assumes "reachable data c" and "fst (get_mcp_components data q now later c) = Ok r"
  shows "good_components data r"
  using reachable_cache_inv [OF assms(1)] assms(2) compute_components_good [of data q]
  by (auto simp: cache_inv_def get_mcp_components_def getCachedOrCompute_def setCache_def
      split: option.splits sum.splits if_splits)

lemma search_response_exact:
  assumes "reachable data c" and "fst (get_mcp_search data q now later c) = Ok r"
  shows "\<exists>s. q = Some s \<and> s \<noteq> [] \<and> compute_search data s = Inr r"
  using reachable_cache_inv [OF assms(1)] assms(2)
  by (auto simp: cache_inv_def get_mcp_search_def getCachedOrCompute_def setCache_def
      split: option.splits sum.splits if_splits)

lemma memo_transparent_off_collision:
  assumes "reachable data c" and "s \<noteq> []"
  shows "fst (get_mcp_search data (Some s) now later c) =
           (case compute_search data s of Inl e \<Rightarrow> ServerError | Inr r \<Rightarrow> Ok r)"
    and "s \<noteq> ''all'' \<Longrightarrow> fst (get_mcp_components data (Some s) now later c) =
           (case compute_components data (Some s) of Inl e \<Rightarrow> ServerError | Inr r \<Rightarrow> Ok r)"
    and "s \<noteq> ''all'' \<Longrightarrow> fst (get_mcp_tokens data (Some s) now later c) =
           Ok (compute_tokens data (Some s))"
  using reachable_cache_inv [OF assms(1)] assms(2)
  by (auto simp: cache_inv_def get_mcp_search_def get_mcp_components_def get_mcp_tokens_def
      getCachedOrCompute_def setCache_def components_key_def tokens_key_def
      split: option.splits sum.splits if_splits)

section \<open>The servers: lists, lookups and summaries\<close>

text \<open>
  Claim C2.  In every state that the cache of a server can reach, no response of
  \<open>GET /mcp/components\<close> (for any filter \<open>q\<close>) lists \<open>_tokens\<close>, no response of
  \<open>GET /mcp/search\<close> (for any query \<open>q'\<close>) has a component result named \<open>_tokens\<close>,
  and neither do the results of the tools \<open>search_components\<close> (for any query) and
  \<open>list_components\<close>.
\<close>

theorem reserved_key_never_listed:
  assumes "reachable data c"
  shows "(\<forall>r. fst (get_mcp_components data q now later c) = Ok r \<longrightarrow> ''_tokens'' \<notin> sum_name ` set r)
    \<and> (\<forall>r n t d m. fst (get_mcp_search data q' now later c) = Ok r
          \<longrightarrow> ComponentHit n t d m \<in> set (sr_results r) \<longrightarrow> n \<noteq> ''_tokens'')
    \<and> (\<forall>r. searchComponents data query = Inr r \<longrightarrow> ''_tokens'' \<notin> comp_name ` set r)
    \<and> ''_tokens'' \<notin> fst ` set (list_components (listComponents data))"
proof (intro conjI allI impI)
  fix r assume "fst (get_mcp_components data q now later c) = Ok r"
  from components_response_good [OF assms this]
  show "''_tokens'' \<notin> sum_name ` set r" by (auto simp: good_components_def)
next
  fix r n t d m
  assume "fst (get_mcp_search data q' now later c) = Ok r"
    and hit: "ComponentHit n t d m \<in> set (sr_results r)"
  from search_response_exact [OF assms this(1)] obtain s where "compute_search data s = Inr r"
    by blast
  from compute_search_no_reserved [OF this] hit show "n \<noteq> ''_tokens''" by force
next
  fix r assume "searchComponents data query = Inr r"
  then obtain ks where "filter_e (key_matches data (toLowerCase query))
        (filter (\<lambda>k. k \<noteq> ''_tokens'') (own_keys data)) = Inr ks"
      and r: "comp_name ` set r = set ks"
    by (force simp: searchComponents_def Let_def image_image split: sum.splits)
  from filter_e_subset [OF this(1)] r show "''_tokens'' \<notin> comp_name ` set r" by auto
next
  show "''_tokens'' \<notin> fst ` set (list_components (listComponents data))"
    by (auto simp: listComponents_def Let_def)
qed

lemma sample_keys: "own_keys sample_data = [''button'', ''card'', ''_tokens'']"
  by code_simp

theorem reserved_key_never_listed_witness:
  "reachable sample_data (snd (get_mcp_components sample_data None 1000 1001 empty_cache))
   \<and> ''_tokens'' \<in> set (own_keys sample_data)
   \<and> fst (get_mcp_components sample_data (Some ''TOK'') 2000 2001
            (snd (get_mcp_components sample_data None 1000 1001 empty_cache))) = Ok []
   \<and> ''_tokens'' \<notin> fst ` set (list_components (listComponents sample_data))"
proof -
  have r: "reachable sample_data (snd (get_mcp_components sample_data None 1000 1001 empty_cache))"
    by (intro reachable.components reachable.start)
  note t = reserved_key_never_listed [OF r, of "Some ''TOK''" 2000 2001]
  have v: "fst (get_mcp_components sample_data (Some ''TOK'') 2000 2001
            (snd (get_mcp_components sample_data None 1000 1001 empty_cache))) = Ok []"
    by code_simp
  show ?thesis using r t v by (simp add: sample_keys)
qed

text \<open>
  Claim C3, as amended.  The lookup reads the dataset at the lower-cased name first:
  whenever the dataset has a key equal to the lower-cased name with a truthy record,
  that record is returned, also when another key equals the name as it was given.  The
  name as given is read only when the first read gives nothing or a falsy value.  This
  holds for \<open>GET /mcp/component/:name\<close> and for the tool \<open>get_component\<close>.
\<close>

theorem lower_case_lookup_first:
  assumes "name \<noteq> []"
  shows "(\<forall>v. map_of data (toLowerCase name) = Some v \<and> truthy v
            \<longrightarrow> get_mcp_component data name = Ok v \<and> call_get_component data (Some name) = Inr v)
    \<and> (\<forall>v. \<not> truthy_opt (obj_read data (toLowerCase name)) \<and> map_of data name = Some v \<and> truthy v
            \<longrightarrow> get_mcp_component data name = Ok v \<and> call_get_component data (Some name) = Inr v)"
  using assms
  by (auto simp: get_mcp_component_def call_get_component_def getComponent_def
      lookup_component_def js_or_def obj_read_def)

text \<open>
  With the keys \<open>Button\<close> and \<open>button\<close> the request for \<open>Button\<close> gets the record of
  \<open>button\<close>; with the key \<open>Card\<close> alone the request for \<open>Card\<close> gets that record
  through the second read.
\<close>

theorem lower_case_lookup_first_witness:
  "get_mcp_component two_cases ''Button'' = Ok (JObj [(''title'', JStr ''lower'')])
   \<and> call_get_component two_cases (Some ''Button'') = Inr (JObj [(''title'', JStr ''lower'')])
   \<and> get_mcp_component [(''Card'', JObj [])] ''Card'' = Ok (JObj [])
   \<and> call_get_component [(''Card'', JObj [])] (Some ''Card'') = Inr (JObj [])"
proof -
  have n: "''Button'' \<noteq> []" "''Card'' \<noteq> []" by simp_all
  have a: "map_of two_cases (toLowerCase ''Button'') = Some (JObj [(''title'', JStr ''lower'')])
      \<and> truthy (JObj [(''title'', JStr ''lower'')])"
    by code_simp
  have b: "\<not> truthy_opt (obj_read [(''Card'', JObj [])] (toLowerCase ''Card''))
      \<and> map_of [(''Card'', JObj [])] ''Card'' = Some (JObj []) \<and> truthy (JObj [])"
    by code_simp
  from lower_case_lookup_first [OF n(1), of two_cases] a
    lower_case_lookup_first [OF n(2), of "[(''Card'', JObj [])]"] b
  show ?thesis by blast
qed

text \<open>
  Claim C3 as stated fails: the dataset has the key \<open>Button\<close>, equal to the requested
  name, and the answer is the record of the other key \<open>button\<close>.
\<close>

theorem exact_key_not_first_counterexample:
  "map_of two_cases ''Button'' = Some (JObj [(''title'', JStr ''exact'')])
   \<and> get_mcp_component two_cases ''Button'' = Ok (JObj [(''title'', JStr ''lower'')])
   \<and> call_get_component two_cases (Some ''Button'') = Inr (JObj [(''title'', JStr ''lower'')])
   \<and> JObj [(''title'', JStr ''lower'')] \<noteq> JObj [(''title'', JStr ''exact'')]"
  by code_simp

text \<open>
  Claim C6 fails on the code at the names that every object inherits from
  \<open>Object.prototype\<close>: \<open>constructor\<close> is no key of the dataset, in either case, and the
  read \<open>data["constructor"]\<close> still finds a (truthy) function, so the handler does not
  answer 404.
\<close>

theorem inherited_name_is_found:
  "''constructor'' \<notin> set (own_keys sample_data)
   \<and> toLowerCase ''constructor'' = ''constructor''
   \<and> get_mcp_component sample_data ''constructor'' = Ok (JBuiltin ''constructor'')"
  by code_simp

text \<open>For every other unknown name the answer is the 404 with all keys but \<open>_tokens\<close>.\<close>

lemma unknown_name_not_found:
  assumes "name \<noteq> []"
    and "name \<notin> set (own_keys data)" and "toLowerCase name \<notin> set (own_keys data)"
    and "name \<notin> set object_prototype_names" and "toLowerCase name \<notin> set object_prototype_names"
  shows "\<exists>available. get_mcp_component data name = NotFound (not_found_message name) available
           \<and> set available = set (own_keys data) - {''_tokens''}"
proof -
  have "map_of data name = None" "map_of data (toLowerCase name) = None"
    using assms(2,3) by (simp_all add: set_own_keys map_of_eq_None_iff)
  then show ?thesis
    using assms(1,4,5)
    by (auto simp: get_mcp_component_def lookup_component_def js_or_def obj_read_def)
qed

text \<open>
  The flags are truthiness tests: for every summary in a response of
  \<open>GET /mcp/components\<close>, in every reachable state of the cache, the name is a key of the
  dataset, \<open>hasProps\<close> says that the record's \<open>props\<close> is present and truthy, and
  \<open>hasExamples\<close> that the record's \<open>examples\<close> is present, not \<open>null\<close>, and has a truthy
  \<open>length\<close>.
\<close>

lemma summary_flags_truthiness:
  assumes "reachable data c" and "fst (get_mcp_components data q now later c) = Ok result"
    and "s \<in> set result"
  shows "(\<exists>v. map_of data (sum_name s) = Some v)
    \<and> hasProps s = truthy_opt (opt_prop (map_of data (sum_name s)) ''props'')
    \<and> hasExamples s = truthy_opt (opt_length (opt_prop (map_of data (sum_name s)) ''examples''))
    \<and> (\<forall>ob. map_of data (sum_name s) = Some (JObj ob) \<longrightarrow>
          (hasProps s \<longleftrightarrow> (\<exists>v. map_of ob ''props'' = Some v \<and> truthy v))
          \<and> (\<forall>xs. map_of ob ''examples'' = Some (JArr xs) \<longrightarrow> (hasExamples s \<longleftrightarrow> xs \<noteq> []))
          \<and> (map_of ob ''examples'' = None \<longrightarrow> \<not> hasExamples s))"
proof -
  from components_response_good [OF assms(1,2)] assms(3)
  have key: "sum_name s \<in> set (own_keys data)" and s: "s = summarize data (sum_name s)"
    by (auto simp: good_components_def)
  from key obtain v where v: "map_of data (sum_name s) = Some v"
    by (metis set_own_keys domD dom_map_of_conv_image_fst)
  have read: "obj_read data (sum_name s) = map_of data (sum_name s)"
    by (simp add: obj_read_def v)
  have p: "hasProps s = truthy_opt (opt_prop (map_of data (sum_name s)) ''props'')"
    by (subst s) (simp add: summarize_def Let_def read)
  have e: "hasExamples s = truthy_opt (opt_length (opt_prop (map_of data (sum_name s)) ''examples''))"
    by (subst s) (simp add: summarize_def Let_def read)
  show ?thesis
    unfolding p e using v
    by (auto simp: obj_read_def object_prototype_names_def split: option.splits)
qed

lemma typed_flags:
  assumes "props_examples_typed ob"
  shows "truthy_opt (opt_prop (Some (JObj ob)) ''props'') \<longleftrightarrow> map_of ob ''props'' \<noteq> None"
    and "truthy_opt (opt_length (opt_prop (Some (JObj ob)) ''examples''))
           \<longleftrightarrow> (\<exists>xs. map_of ob ''examples'' = Some (JArr xs) \<and> xs \<noteq> [])"
  using assms
  by (auto simp: props_examples_typed_def obj_read_def object_prototype_names_def
      split: option.splits jsval.splits)

lemma searchComponents_flags:
  assumes "searchComponents data query = Inr found" and "cmp \<in> set found"
  shows "comp_name cmp \<in> set (own_keys data)
    \<and> comp_hasProps cmp = truthy_opt (opt_prop (obj_read data (comp_name cmp)) ''props'')
    \<and> comp_hasExamples cmp =
        truthy_opt (opt_length (opt_prop (obj_read data (comp_name cmp)) ''examples''))"
proof -
  from assms(1) obtain ks where ks: "filter_e (key_matches data (toLowerCase query))
        (filter (\<lambda>k. k \<noteq> ''_tokens'') (own_keys data)) = Inr ks"
    and f: "found = map (\<lambda>key.
                    \<lparr> comp_name = key,
                      comp_title = opt_prop (obj_read data key) ''title'',
                      comp_description = opt_prop (obj_read data key) ''description'',
                      comp_hasProps = truthy_opt (opt_prop (obj_read data key) ''props''),
                      comp_hasExamples =
                        truthy_opt (opt_length (opt_prop (obj_read data key) ''examples'')) \<rparr>) ks"
    by (auto simp: searchComponents_def Let_def split: sum.splits)
  from assms(2) f obtain key where "key \<in> set ks" and c: "cmp = \<lparr> comp_name = key,
                      comp_title = opt_prop (obj_read data key) ''title'',
                      comp_description = opt_prop (obj_read data key) ''description'',
                      comp_hasProps = truthy_opt (opt_prop (obj_read data key) ''props''),
                      comp_hasExamples =
                        truthy_opt (opt_length (opt_prop (obj_read data key) ''examples'')) \<rparr>"
    by auto
  with filter_e_subset [OF ks] show ?thesis by auto
qed

text \<open>
  Claim C8.  For every component in a response of \<open>GET /mcp/components\<close> (for every
  filter and in every reachable state of the cache) whose record has the declared types
  of \<open>props\<close> and \<open>examples\<close>, \<open>hasProps\<close> is true exactly when the record has the field
  \<open>props\<close>, and \<open>hasExamples\<close> is true exactly when the record has the field \<open>examples\<close>
  and the array is not empty.  The summaries that the tool \<open>search_components\<close> builds
  have the same two flags.
\<close>

theorem summary_flags_typed:
  assumes "reachable data c"
  shows "(\<forall>result s ob. fst (get_mcp_components data q now later c) = Ok result \<and> s \<in> set result
            \<and> map_of data (sum_name s) = Some (JObj ob) \<and> props_examples_typed ob
          \<longrightarrow> (hasProps s \<longleftrightarrow> map_of ob ''props'' \<noteq> None)
              \<and> (hasExamples s \<longleftrightarrow> (\<exists>xs. map_of ob ''examples'' = Some (JArr xs) \<and> xs \<noteq> [])))
    \<and> (\<forall>found cmp ob. searchComponents data query = Inr found \<and> cmp \<in> set found
            \<and> map_of data (comp_name cmp) = Some (JObj ob) \<and> props_examples_typed ob
          \<longrightarrow> (comp_hasProps cmp \<longleftrightarrow> map_of ob ''props'' \<noteq> None)
              \<and> (comp_hasExamples cmp
                   \<longleftrightarrow> (\<exists>xs. map_of ob ''examples'' = Some (JArr xs) \<and> xs \<noteq> [])))"
proof (intro conjI allI impI)
  fix result s ob
  assume a: "fst (get_mcp_components data q now later c) = Ok result \<and> s \<in> set result
            \<and> map_of data (sum_name s) = Some (JObj ob) \<and> props_examples_typed ob"
  from summary_flags_truthiness [OF assms, of q now later result s] a
  have "hasProps s = truthy_opt (opt_prop (Some (JObj ob)) ''props'')"
    and "hasExamples s = truthy_opt (opt_length (opt_prop (Some (JObj ob)) ''examples''))"
    by auto
  with typed_flags [of ob] a
  show "hasProps s \<longleftrightarrow> map_of ob ''props'' \<noteq> None"
    and "hasExamples s \<longleftrightarrow> (\<exists>xs. map_of ob ''examples'' = Some (JArr xs) \<and> xs \<noteq> [])"
    by auto
next
  fix found cmp ob
  assume a: "searchComponents data query = Inr found \<and> cmp \<in> set found
            \<and> map_of data (comp_name cmp) = Some (JObj ob) \<and> props_examples_typed ob"
  then have "obj_read data (comp_name cmp) = Some (JObj ob)" by (simp add: obj_read_def)
  with searchComponents_flags [of data query found cmp] a
  have "comp_hasProps cmp = truthy_opt (opt_prop (Some (JObj ob)) ''props'')"
    and "comp_hasExamples cmp = truthy_opt (opt_length (opt_prop (Some (JObj ob)) ''examples''))"
    by auto
  with typed_flags [of ob] a
  show "comp_hasProps cmp \<longleftrightarrow> map_of ob ''props'' \<noteq> None"
    and "comp_hasExamples cmp \<longleftrightarrow> (\<exists>xs. map_of ob ''examples'' = Some (JArr xs) \<and> xs \<noteq> [])"
    by auto
qed

text \<open>
  The button has \<open>props\<close> (an empty object) and one example; the card has no \<open>props\<close>
  and an empty list of examples.
\<close>

theorem summary_flags_typed_witness:
  "fst (get_mcp_components typed_data None 1000 1001 empty_cache) =
     Ok [summarize typed_data ''button'', summarize typed_data ''card'']
   \<and> props_examples_typed [(''title'', JStr ''Button''), (''props'', JObj []),
                            (''examples'', JArr [JStr ''<Button />''])]
   \<and> props_examples_typed [(''title'', JStr ''Card''), (''examples'', JArr [])]
   \<and> hasProps (summarize typed_data ''button'') \<and> hasExamples (summarize typed_data ''button'')
   \<and> \<not> hasProps (summarize typed_data ''card'') \<and> \<not> hasExamples (summarize typed_data ''card'')"
proof -
  let ?b = "[(''title'', JStr ''Button''), (''props'', JObj []), (''examples'', JArr [JStr ''<Button />''])]"
  let ?c = "[(''title'', JStr ''Card''), (''examples'', JArr [])]"
  have r: "fst (get_mcp_components typed_data None 1000 1001 empty_cache) =
     Ok [summarize typed_data ''button'', summarize typed_data ''card'']"
    by code_simp
  have tb: "props_examples_typed ?b" and tc: "props_examples_typed ?c"
    by (simp_all add: props_examples_typed_def)
  have n: "sum_name (summarize typed_data ''button'') = ''button''"
     "sum_name (summarize typed_data ''card'') = ''card''"
    by (simp_all add: sum_name_summarize)
  have v: "map_of typed_data (sum_name (summarize typed_data ''button'')) = Some (JObj ?b)"
     "map_of typed_data (sum_name (summarize typed_data ''card'')) = Some (JObj ?c)"
    unfolding n by (simp_all add: typed_data_def)
  note t = summary_flags_typed [OF reachable.start, of typed_data None 1000 1001 "[]",
      THEN conjunct1, rule_format]
  have mb: "summarize typed_data ''button'' \<in> set [summarize typed_data ''button'', summarize typed_data ''card'']"
    and mc: "summarize typed_data ''card'' \<in> set [summarize typed_data ''button'', summarize typed_data ''card'']"
    by simp_all
  have "(hasProps (summarize typed_data ''button'') \<longleftrightarrow> map_of ?b ''props'' \<noteq> None)
      \<and> (hasExamples (summarize typed_data ''button'')
           \<longleftrightarrow> (\<exists>xs. map_of ?b ''examples'' = Some (JArr xs) \<and> xs \<noteq> []))"
    using t [where result = "[summarize typed_data ''button'', summarize typed_data ''card'']"
        and s = "summarize typed_data ''button''" and ob = ?b] r mb v(1) tb
    by blast
  moreover have "(hasProps (summarize typed_data ''card'') \<longleftrightarrow> map_of ?c ''props'' \<noteq> None)
      \<and> (hasExamples (summarize typed_data ''card'')
           \<longleftrightarrow> (\<exists>xs. map_of ?c ''examples'' = Some (JArr xs) \<and> xs \<noteq> []))"
    using t [where result = "[summarize typed_data ''button'', summarize typed_data ''card'']"
        and s = "summarize typed_data ''card''" and ob = ?c] r mc v(2) tc
    by blast
  ultimately show ?thesis using r tb tc by simp
qed

text \<open>
  Outside the declared types the flags follow truthiness: a record whose \<open>props\<close> is
  \<open>null\<close> has the field and \<open>hasProps\<close> false.
\<close>

lemma null_props_flag:
  "map_of sample_data ''card'' = Some (JObj [(''props'', JNull), (''examples'', JArr [])])
   \<and> hasProps (summarize sample_data ''card'') = False"
  by code_simp

section \<open>The Query API: memoization\<close>

text \<open>
  Claim C10 fails on the code.  The cache key of a request without \<open>q\<close> is
  \<open>components:all\<close> (\<open>tokens:all\<close>), and so is the key of the request with \<open>q = all\<close>.
  After a request without filter, the request \<open>GET /mcp/components?q=all\<close> inside the
  time to live is served the unfiltered list, while the compute function for \<open>all\<close>
  gives the empty list; the same holds for \<open>GET /mcp/tokens\<close>.  Off these two keys, and
  for every search, the response is the computed value (lemma
  \<open>memo_transparent_off_collision\<close>).
\<close>

theorem cache_key_collision:
  "fst (get_mcp_components sample_data (Some ''all'') 2000 2001
          (snd (get_mcp_components sample_data None 1000 1001 empty_cache)))
     = Ok [summarize sample_data ''button'', summarize sample_data ''card'']
   \<and> compute_components sample_data (Some ''all'') = Inr []
   \<and> fst (get_mcp_tokens sample_data (Some ''all'') 2000 2001
          (snd (get_mcp_tokens sample_data None 1000 1001 empty_cache)))
     = Ok \<lparr> tok_count = 1, tok_tokens = JObj [(''--p-button-radius'', JStr ''dt('button.radius')'')] \<rparr>
   \<and> compute_tokens sample_data (Some ''all'') = \<lparr> tok_count = 0, tok_tokens = JObj [] \<rparr>"
  by code_simp

end
